theory Spec2Isabelle
  imports Complex_Main "HOL-Library.AList"
begin

section \<open>Python values used by the scoring code\<close>

subsection \<open>Strings\<close>

text \<open>
  A Python \<open>str\<close> is a \<^typ>\<open>string\<close>; a \<^typ>\<open>char\<close> stands for a code point below 256.
  \<open>isspace\<close> lists the code points below 256 that \<open>str.strip()\<close> removes, and
  \<open>islinebreak\<close> those at which \<open>str.splitlines()\<close> cuts.
\<close>

abbreviation TAB_CHAR :: char where
  "TAB_CHAR \<equiv> CHR 0x09"

abbreviation LF :: char where
  "LF \<equiv> CHR 0x0A"

abbreviation CR :: char where
  "CR \<equiv> CHR 0x0D"

definition isspace :: "char \<Rightarrow> bool" where
  "isspace c = (c \<in> set [CHR 0x09, CHR 0x0A, CHR 0x0B, CHR 0x0C, CHR 0x0D,
                          CHR 0x1C, CHR 0x1D, CHR 0x1E, CHR 0x1F, CHR 0x20, CHR 0x85, CHR 0xA0])"

definition islinebreak :: "char \<Rightarrow> bool" where
  "islinebreak c = (c \<in> set [CHR 0x0A, CHR 0x0B, CHR 0x0C, CHR 0x0D,
                              CHR 0x1C, CHR 0x1D, CHR 0x1E, CHR 0x85])"

definition lstrip :: "string \<Rightarrow> string" where
  "lstrip s = dropWhile isspace s"

definition rstrip :: "string \<Rightarrow> string" where
  "rstrip s = rev (dropWhile isspace (rev s))"

text \<open>\<open>s.strip()\<close>\<close>

definition strip :: "string \<Rightarrow> string" where
  "strip s = rstrip (lstrip s)"

text \<open>
  \<open>s.splitlines()\<close>: \<open>cur\<close> holds the current line, reversed. A carriage return followed
  by a line feed is one boundary; a final boundary opens no empty last line.
\<close>

function splitlines_from :: "string \<Rightarrow> string \<Rightarrow> string list" where
  "splitlines_from cur [] = (if cur = [] then [] else [rev cur])"
| "splitlines_from cur (c # cs) =
     (if islinebreak c
      then rev cur # splitlines_from [] (if c = CR \<and> take 1 cs = [LF] then drop 1 cs else cs)
      else splitlines_from (c # cur) cs)"
  by pat_completeness auto
termination
  by (relation "measure (\<lambda>(cur, s). length s)") auto

definition splitlines :: "string \<Rightarrow> string list" where
  "splitlines s = splitlines_from [] s"

text \<open>\<open>s.split(sep)\<close> for a one-character separator: always at least one field.\<close>

fun split_sep :: "char \<Rightarrow> string \<Rightarrow> string list" where
  "split_sep sep [] = [[]]"
| "split_sep sep (c # cs) =
     (if c = sep then [] # split_sep sep cs
      else (case split_sep sep cs of [] \<Rightarrow> [[c]] | f # fs \<Rightarrow> (c # f) # fs))"

subsection \<open>Floats\<close>

text \<open>
  The times and the bounds are Python floats. The code only compares them, so a float is
  modelled by its value: a real number, one of the two infinities, or \<open>nan\<close>. The
  numbers and the infinities are the linearly ordered type \<open>xreal\<close>; a \<open>pyfloat\<close> is
  one of them or \<open>nan\<close>. \<open>py_gt a b\<close> is Python's \<open>a > b\<close> and \<open>py_eq a b\<close> is
  \<open>a == b\<close>: both are false as soon as one side is \<open>nan\<close>.

  \<open>float(t)\<close> is Python's own parser, not code of this repository: every function
  below takes it as the parameter \<open>tofloat\<close>, where \<open>None\<close> stands for the
  \<open>ValueError\<close> that \<open>float\<close> raises on text that is no number.
\<close>

datatype xreal = MInf | Fin real | PInf

instantiation xreal :: linorder
begin

fun less_eq_xreal :: "xreal \<Rightarrow> xreal \<Rightarrow> bool" where
  "less_eq_xreal MInf y = True"
| "less_eq_xreal (Fin a) MInf = False"
| "less_eq_xreal (Fin a) (Fin b) = (a \<le> b)"
| "less_eq_xreal (Fin a) PInf = True"
| "less_eq_xreal PInf MInf = False"
| "less_eq_xreal PInf (Fin b) = False"
| "less_eq_xreal PInf PInf = True"

definition less_xreal :: "xreal \<Rightarrow> xreal \<Rightarrow> bool" where
  "less_xreal x y = (x \<le> y \<and> \<not> y \<le> x)"

instance
proof
  fix x y z :: xreal
  show "(x < y) = (x \<le> y \<and> \<not> y \<le> x)"
    by (simp add: less_xreal_def)
  show "x \<le> x"
    by (cases x) simp_all
  show "x \<le> y \<Longrightarrow> y \<le> z \<Longrightarrow> x \<le> z"
    by (cases x; cases y; cases z) simp_all
  show "x \<le> y \<Longrightarrow> y \<le> x \<Longrightarrow> x = y"
    by (cases x; cases y) simp_all
  show "x \<le> y \<or> y \<le> x"
    by (cases x; cases y) auto
qed

end

datatype pyfloat = NaN | Num xreal

abbreviation NegInf :: pyfloat where
  "NegInf \<equiv> Num MInf"

abbreviation Finite :: "real \<Rightarrow> pyfloat" where
  "Finite r \<equiv> Num (Fin r)"

abbreviation PosInf :: pyfloat where
  "PosInf \<equiv> Num PInf"

fun py_gt :: "pyfloat \<Rightarrow> pyfloat \<Rightarrow> bool" where
  "py_gt (Num a) (Num b) = (a > b)"
| "py_gt a b = False"

fun py_eq :: "pyfloat \<Rightarrow> pyfloat \<Rightarrow> bool" where
  "py_eq (Num a) (Num b) = (a = b)"
| "py_eq a b = False"

subsection \<open>Errors\<close>

text \<open>
  Every exception the modelled code can raise. \<open>MissingInput\<close>, \<open>NoSuchMetric\<close>,
  \<open>UnpackError\<close> and \<open>FloatError\<close> are all \<open>ValueError\<close> in Python: the two raised by
  \<open>pairCounts\<close> itself (\<open>MissingInput\<close> carries the name of the missing argument), the
  one raised when a line does not split into the expected number of fields, and the one
  raised by \<open>float\<close>. \<open>FileNotFoundError\<close> is what \<open>open('')\<close> raises.
  \<open>NanConversionError\<close> (a \<open>ValueError\<close>) and \<open>OverflowError\<close> are raised when a
  float that is no number, or an infinity, is converted to an integer.
\<close>

datatype error =
    MissingInput string
  | NoSuchMetric
  | UnpackError
  | FloatError
  | FileNotFoundError
  | KeyError
  | IndexError
  | NanConversionError
  | OverflowError
  | LibraryError

subsection \<open>Dictionaries\<close>

text \<open>
  A Python \<open>dict\<close> keeps its keys in insertion order and the code iterates over
  dictionaries, so a dictionary is an association list with distinct keys:
  \<open>map_of d k\<close> is the lookup, \<open>AList.update k v d\<close> is \<open>d[k] = v\<close> (in place for a
  key that is present, at the end for a new one).
\<close>

type_synonym 'v pydict = "(string \<times> 'v) list"

text \<open>\<open>if k not in d: d[k] = v\<close>\<close>

definition setdefault :: "string \<Rightarrow> 'v \<Rightarrow> 'v pydict \<Rightarrow> 'v pydict" where
  "setdefault k v d = (if map_of d k = None then AList.update k v d else d)"

text \<open>
  \<open>d[k] += n\<close>. The code writes it only right after \<open>if k not in d: d[k] = 0\<close>, so the
  key is present; for an absent key (where Python raises \<open>KeyError\<close>) the model leaves the
  dictionary as it is.
\<close>

definition add_at :: "string \<Rightarrow> int \<Rightarrow> int pydict \<Rightarrow> int pydict" where
  "add_at k n d = (case map_of d k of None \<Rightarrow> d | Some c \<Rightarrow> AList.update k (c + n) d)"

subsection \<open>Loops that can raise\<close>

text \<open>A \<open>for\<close> loop over a list whose body may raise: the first error ends the loop.\<close>

fun for_each :: "('s \<Rightarrow> 'a \<Rightarrow> error + 's) \<Rightarrow> 's \<Rightarrow> 'a list \<Rightarrow> error + 's" where
  "for_each body s [] = Inr s"
| "for_each body s (x # xs) =
     (case body s x of Inl e \<Rightarrow> Inl e | Inr s' \<Rightarrow> for_each body s' xs)"

section \<open>Reading a log: \<open>opengzip\<close>\<close>

text \<open>
  A log argument is either the empty string that stands for "not supplied", or a file
  (a path or an open file object) of which only the text matters here. \<open>opengzip('')\<close>
  calls \<open>open('')\<close>, which raises \<open>FileNotFoundError\<close>.
\<close>

datatype logfile = NotSupplied | Content string

definition opengzip :: "logfile \<Rightarrow> error + string list" where
  "opengzip f =
     (case f of
        NotSupplied \<Rightarrow> Inl FileNotFoundError
      | Content text \<Rightarrow> Inr (map strip (splitlines (strip text))))"

text \<open>\<open>u,v,t = line.split(TAB_CHAR)\<close>\<close>

definition unpack3 :: "string \<Rightarrow> error + (string \<times> string \<times> string)" where
  "unpack3 line =
     (case split_sep TAB_CHAR line of [u, v, t] \<Rightarrow> Inr (u, v, t) | _ \<Rightarrow> Inl UnpackError)"

section \<open>Metric 1: \<open>directTransmissions\<close>\<close>

definition directTransmissions_body ::
  "(string \<Rightarrow> pyfloat option) \<Rightarrow> pyfloat \<Rightarrow> pyfloat \<Rightarrow> int pydict \<Rightarrow> string \<Rightarrow> error + int pydict" where
  "directTransmissions_body tofloat lowerBound upperBound numInfected line =
     (case unpack3 line of
        Inl e \<Rightarrow> Inl e
      | Inr (u0, v0, t) \<Rightarrow>
          (let u = strip u0; v = strip v0 in
           case tofloat t of
             None \<Rightarrow> Inl FloatError
           | Some ft \<Rightarrow>
               if py_gt lowerBound ft \<or> py_gt ft upperBound then Inr numInfected
               else if u = [] \<or> u = ''None'' then Inr numInfected
               else Inr (add_at u 1 (setdefault u 0 numInfected))))"

definition directTransmissions ::
  "(string \<Rightarrow> pyfloat option) \<Rightarrow> logfile \<Rightarrow> pyfloat \<Rightarrow> pyfloat \<Rightarrow> error + int pydict" where
  "directTransmissions tofloat transmissionHist lowerBound upperBound =
     (case opengzip transmissionHist of
        Inl e \<Rightarrow> Inl e
      | Inr lines \<Rightarrow>
          for_each (directTransmissions_body tofloat lowerBound upperBound) [] lines)"

section \<open>Metric 4: \<open>totalTransmissions\<close>\<close>

text \<open>
  The first loop of \<open>totalTransmissions\<close> (and, with the same text, the first loop of
  \<open>numContactInfect\<close>): the direct counts, where only the source \<open>'None'\<close> is skipped.
\<close>

definition numInfected_body ::
  "(string \<Rightarrow> pyfloat option) \<Rightarrow> pyfloat \<Rightarrow> pyfloat \<Rightarrow> int pydict \<Rightarrow> string \<Rightarrow> error + int pydict" where
  "numInfected_body tofloat lowerBound upperBound numInfected line =
     (case unpack3 line of
        Inl e \<Rightarrow> Inl e
      | Inr (u0, v0, t) \<Rightarrow>
          (let u = strip u0; v = strip v0 in
           case tofloat t of
             None \<Rightarrow> Inl FloatError
           | Some ft \<Rightarrow>
               if py_gt lowerBound ft \<or> py_gt ft upperBound then Inr numInfected
               else if u = ''None'' then Inr numInfected
               else Inr (add_at u 1 (setdefault u 0 numInfected))))"

text \<open>The second loop: \<open>numIndirect[u] += numInfected.get(v)\<close> when \<open>v in numInfected\<close>.\<close>

definition numIndirect_body ::
  "(string \<Rightarrow> pyfloat option) \<Rightarrow> pyfloat \<Rightarrow> pyfloat \<Rightarrow> int pydict \<Rightarrow> int pydict \<Rightarrow> string
     \<Rightarrow> error + int pydict" where
  "numIndirect_body tofloat lowerBound upperBound numInfected numIndirect line =
     (case unpack3 line of
        Inl e \<Rightarrow> Inl e
      | Inr (u0, v0, t) \<Rightarrow>
          (let u = strip u0; v = strip v0 in
           case tofloat t of
             None \<Rightarrow> Inl FloatError
           | Some ft \<Rightarrow>
               if py_gt lowerBound ft \<or> py_gt ft upperBound then Inr numIndirect
               else if u = ''None'' then Inr numIndirect
               else (let d = setdefault u 0 numIndirect in
                     case map_of numInfected v of
                       Some c \<Rightarrow> Inr (add_at u c d)
                     | None \<Rightarrow> Inr d)))"

text \<open>
  The third loop, over the keys of \<open>numInfected\<close>. Its last statement is the bare
  expression \<open>numIndirect[person]\<close>: the value is read and dropped, so both branches of
  the last \<open>case\<close> return the same dictionary.
\<close>

definition numTotal_body :: "int pydict \<Rightarrow> int pydict \<Rightarrow> string \<Rightarrow> int pydict \<Rightarrow> int pydict" where
  "numTotal_body numInfected numIndirect person numTotal =
     (let d = setdefault person 0 numTotal;
          d' = (case map_of numInfected person of Some c \<Rightarrow> add_at person c d | None \<Rightarrow> d)
      in case map_of numIndirect person of Some i \<Rightarrow> d' | None \<Rightarrow> d')"

definition totalTransmissions ::
  "(string \<Rightarrow> pyfloat option) \<Rightarrow> logfile \<Rightarrow> pyfloat \<Rightarrow> pyfloat \<Rightarrow> error + int pydict" where
  "totalTransmissions tofloat transmissionHist lowerBound upperBound =
     (case opengzip transmissionHist of
        Inl e \<Rightarrow> Inl e
      | Inr lines \<Rightarrow>
          (case for_each (numInfected_body tofloat lowerBound upperBound) [] lines of
             Inl e \<Rightarrow> Inl e
           | Inr numInfected \<Rightarrow>
               (case for_each (numIndirect_body tofloat lowerBound upperBound numInfected) [] lines of
                  Inl e \<Rightarrow> Inl e
                | Inr numIndirect \<Rightarrow>
                    Inr (fold (numTotal_body numInfected numIndirect) (map fst numInfected) []))))"

section \<open>Metric 3: \<open>indirectTransmissions\<close>\<close>

text \<open>\<open>d[k].append(x)\<close> and \<open>d[k].extend(xs)\<close>, written by the code for keys that are present.\<close>

definition extend_at :: "string \<Rightarrow> 'a list \<Rightarrow> ('a list) pydict \<Rightarrow> ('a list) pydict" where
  "extend_at k xs d = (case map_of d k of None \<Rightarrow> d | Some l \<Rightarrow> AList.update k (l @ xs) d)"

definition direct_body ::
  "(string \<Rightarrow> pyfloat option) \<Rightarrow> pyfloat \<Rightarrow> pyfloat \<Rightarrow> (string list) pydict \<Rightarrow> string
     \<Rightarrow> error + (string list) pydict" where
  "direct_body tofloat lowerBound upperBound direct line =
     (case unpack3 line of
        Inl e \<Rightarrow> Inl e
      | Inr (u0, v0, t) \<Rightarrow>
          (let u = strip u0; v = strip v0 in
           case tofloat t of
             None \<Rightarrow> Inl FloatError
           | Some ft \<Rightarrow>
               if py_gt lowerBound ft \<or> py_gt ft upperBound then Inr direct
               else if u = ''None'' then Inr direct
               else Inr (extend_at u [v] (setdefault v [] (setdefault u [] direct)))))"

text \<open>\<open>thisDegree[key].extend(direct[value])\<close>; \<open>direct[value]\<close> raises for a missing key.\<close>

definition extend_body ::
  "(string list) pydict \<Rightarrow> string \<Rightarrow> (string list) pydict \<Rightarrow> string \<Rightarrow> error + (string list) pydict" where
  "extend_body direct key thisDegree val =
     (case map_of direct val of
        None \<Rightarrow> Inl KeyError
      | Some ds \<Rightarrow> Inr (extend_at key ds thisDegree))"

text \<open>The body of \<open>for key in lastDegree\<close>, on the entry \<open>(key, lastDegree[key])\<close>.\<close>

definition frontier_body ::
  "(string list) pydict \<Rightarrow> (string list) pydict \<Rightarrow> string \<times> string list \<Rightarrow> error + (string list) pydict" where
  "frontier_body direct thisDegree entry =
     for_each (extend_body direct (fst entry)) (setdefault (fst entry) [] thisDegree) (snd entry)"

text \<open>The body of \<open>for key in thisDegree\<close>, on the entry \<open>(key, thisDegree[key])\<close>.\<close>

definition tally_body :: "string \<times> string list \<Rightarrow> int pydict \<Rightarrow> int pydict" where
  "tally_body entry numIndirect =
     add_at (fst entry) (int (length (snd entry))) (setdefault (fst entry) 0 numIndirect)"

text \<open>
  One round of \<open>for n in range(1, numDegrees)\<close>. The state is \<open>(numIndirect, lastDegree)\<close>;
  \<open>thisDegree\<close> is empty when a round starts (it is created empty and cleared at the end
  of every round, after \<open>lastDegree\<close> took a copy of it).
\<close>

definition degree_body ::
  "(string list) pydict \<Rightarrow> int pydict \<times> (string list) pydict \<Rightarrow> int
     \<Rightarrow> error + (int pydict \<times> (string list) pydict)" where
  "degree_body direct state n =
     (case for_each (frontier_body direct) [] (snd state) of
        Inl e \<Rightarrow> Inl e
      | Inr thisDegree \<Rightarrow> Inr (fold tally_body thisDegree (fst state), thisDegree))"

text \<open>The first loop: the adjacency dictionary \<open>direct\<close>.\<close>

definition directAdjacency ::
  "(string \<Rightarrow> pyfloat option) \<Rightarrow> logfile \<Rightarrow> pyfloat \<Rightarrow> pyfloat \<Rightarrow> error + (string list) pydict" where
  "directAdjacency tofloat transmissionHist lowerBound upperBound =
     (case opengzip transmissionHist of
        Inl e \<Rightarrow> Inl e
      | Inr lines \<Rightarrow> for_each (direct_body tofloat lowerBound upperBound) [] lines)"

definition indirectTransmissions ::
  "(string \<Rightarrow> pyfloat option) \<Rightarrow> logfile \<Rightarrow> int \<Rightarrow> pyfloat \<Rightarrow> pyfloat \<Rightarrow> error + int pydict" where
  "indirectTransmissions tofloat transmissionHist numDegrees lowerBound upperBound =
     (case directAdjacency tofloat transmissionHist lowerBound upperBound of
        Inl e \<Rightarrow> Inl e
      | Inr direct \<Rightarrow>
          (case for_each (degree_body direct) ([], direct) [1 .. numDegrees - 1] of
             Inl e \<Rightarrow> Inl e
           | Inr state \<Rightarrow> Inr (fst state)))"

section \<open>Metric 2: \<open>bestfitGraph\<close>\<close>

text \<open>
  The first loop: the transmission times of every source, in the order of the log, and
  the latest time seen. The state is \<open>(timesInfected, latestInfectionTime)\<close>.
\<close>

definition timesInfected_body ::
  "(string \<Rightarrow> pyfloat option) \<Rightarrow> pyfloat \<Rightarrow> pyfloat \<Rightarrow> bool \<Rightarrow> (pyfloat list) pydict \<times> pyfloat \<Rightarrow> string
     \<Rightarrow> error + ((pyfloat list) pydict \<times> pyfloat)" where
  "timesInfected_body tofloat lowerBound upperBound isUpperBoundSet state line =
     (case unpack3 line of
        Inl e \<Rightarrow> Inl e
      | Inr (u0, v0, t) \<Rightarrow>
          (let u = strip u0; v = strip v0 in
           case tofloat t of
             None \<Rightarrow> Inl FloatError
           | Some ft \<Rightarrow>
               if py_gt lowerBound ft \<or> py_gt ft upperBound then Inr state
               else if u = ''None'' then Inr state
               else Inr (extend_at u [ft] (setdefault u [] (fst state)),
                         if \<not> isUpperBoundSet \<and> py_gt ft (snd state) then ft else snd state)))"

text \<open>
  A step is one call of \<open>np.linspace(start, stop, numPointsPerStep)\<close> together with the
  value repeated for its points: \<open>(start, stop, value)\<close>. \<open>steps_of\<close> lists the steps that
  the loop over \<open>range(len(times))\<close> builds for one transmitter, after the leading step
  from the lower bound to \<open>times[0]\<close>.
\<close>

type_synonym step = "pyfloat \<times> pyfloat \<times> int"

definition steps_of :: "pyfloat \<Rightarrow> pyfloat \<Rightarrow> pyfloat list \<Rightarrow> error + step list" where
  "steps_of lowerBound latestInfectionTime tms =
     (case tms of
        [] \<Rightarrow> Inl IndexError
      | t0 # _ \<Rightarrow>
          Inr ((lowerBound, t0, 0) #
               map (\<lambda>i. if i = length tms - 1
                        then (tms ! i, latestInfectionTime, int i + 1)
                        else (tms ! i, tms ! (i + 1), int i + 1))
                   [0 ..< length tms]))"

text \<open>
  The sampling of the points and the regression (\<open>np.linspace\<close>, \<open>stats.linregress\<close>) are
  library code: \<open>fit numPointsPerStep steps\<close> stands for the slope they give.
\<close>

definition slopes_body ::
  "(nat \<Rightarrow> step list \<Rightarrow> error + 's) \<Rightarrow> pyfloat \<Rightarrow> pyfloat \<Rightarrow> nat \<Rightarrow> 's pydict \<Rightarrow> string \<times> pyfloat list
     \<Rightarrow> error + 's pydict" where
  "slopes_body fit lowerBound latestInfectionTime numPointsPerStep slopesDict entry =
     (case steps_of lowerBound latestInfectionTime (snd entry) of
        Inl e \<Rightarrow> Inl e
      | Inr steps \<Rightarrow>
          (case fit numPointsPerStep steps of
             Inl e \<Rightarrow> Inl e
           | Inr slope \<Rightarrow> Inr (AList.update (fst entry) slope slopesDict)))"

definition DEF_POINTS_PER_STEP :: nat where
  "DEF_POINTS_PER_STEP = 10"

definition bestfitGraph ::
  "(string \<Rightarrow> pyfloat option) \<Rightarrow> (nat \<Rightarrow> step list \<Rightarrow> error + 's) \<Rightarrow> logfile \<Rightarrow> pyfloat \<Rightarrow> pyfloat \<Rightarrow> nat
     \<Rightarrow> error + 's pydict" where
  "bestfitGraph tofloat fit transmissionHist lowerBound upperBound numPointsPerStep0 =
     (let numPointsPerStep = (if numPointsPerStep0 = 0 then DEF_POINTS_PER_STEP else numPointsPerStep0) in
      case opengzip transmissionHist of
        Inl e \<Rightarrow> Inl e
      | Inr lines \<Rightarrow>
          (let isUpperBoundSet = (\<not> py_eq upperBound PosInf);
               latest0 = (if py_eq upperBound PosInf then Finite (- 1) else upperBound)
           in case for_each (timesInfected_body tofloat lowerBound upperBound isUpperBoundSet)
                     ([], latest0) lines of
                Inl e \<Rightarrow> Inl e
              | Inr state \<Rightarrow>
                  for_each (slopes_body fit lowerBound (snd state) numPointsPerStep) [] (fst state)))"

section \<open>Metric 5: \<open>numContacts\<close>\<close>

text \<open>\<open>u,v,t,w,x = line.split('\t')\<close>\<close>

definition unpack5 :: "string \<Rightarrow> error + (string \<times> string \<times> string \<times> string \<times> string)" where
  "unpack5 line =
     (case split_sep TAB_CHAR line of
        [u, v, t, w, x] \<Rightarrow> Inr (u, v, t, w, x)
      | _ \<Rightarrow> Inl UnpackError)"

text \<open>Only \<open>u\<close> and \<open>v\<close> are stripped; the third field \<open>t\<close> is used as it is.\<close>

definition numContacts_body :: "int pydict \<Rightarrow> string \<Rightarrow> error + int pydict" where
  "numContacts_body numberContacts line =
     (if take 4 line = ''NODE'' then Inr numberContacts
      else case unpack5 line of
        Inl e \<Rightarrow> Inl e
      | Inr (u0, v0, t, w, x) \<Rightarrow>
          (let u = strip u0; v = strip v0 in
           if u = ''None'' then Inr numberContacts
           else Inr (add_at t 1 (add_at v 1 (setdefault t 0 (setdefault v 0 numberContacts))))))"

text \<open>The bounds are parameters of the function that it never reads.\<close>

definition numContacts :: "logfile \<Rightarrow> pyfloat \<Rightarrow> pyfloat \<Rightarrow> error + int pydict" where
  "numContacts transmissionHist lowerBound upperBound =
     (case opengzip transmissionHist of
        Inl e \<Rightarrow> Inl e
      | Inr lines \<Rightarrow> for_each numContacts_body [] lines)"

section \<open>Metric 6: \<open>numContactInfect\<close>\<close>

definition numContactInfect_body :: "int pydict \<Rightarrow> int pydict \<Rightarrow> string \<Rightarrow> error + int pydict" where
  "numContactInfect_body numInfected numberContacts line =
     (if take 4 line = ''NODE'' then Inr numberContacts
      else case unpack5 line of
        Inl e \<Rightarrow> Inl e
      | Inr (u0, v0, t, w, x) \<Rightarrow>
          (let u = strip u0; v = strip v0 in
           if u = ''None'' then Inr numberContacts
           else (let d = setdefault t 0 (setdefault v 0 numberContacts);
                     d' = (case map_of numInfected t of Some c \<Rightarrow> add_at v c d | None \<Rightarrow> d)
                 in Inr (case map_of numInfected v of Some c \<Rightarrow> add_at t c d' | None \<Rightarrow> d'))))"

definition numContactInfect ::
  "(string \<Rightarrow> pyfloat option) \<Rightarrow> logfile \<Rightarrow> logfile \<Rightarrow> pyfloat \<Rightarrow> pyfloat \<Rightarrow> error + int pydict" where
  "numContactInfect tofloat transmissionHist contactNet lowerBound upperBound =
     (case opengzip transmissionHist of
        Inl e \<Rightarrow> Inl e
      | Inr lines \<Rightarrow>
          (case for_each (numInfected_body tofloat lowerBound upperBound) [] lines of
             Inl e \<Rightarrow> Inl e
           | Inr numInfected \<Rightarrow>
               (case opengzip contactNet of
                  Inl e \<Rightarrow> Inl e
                | Inr clines \<Rightarrow> for_each (numContactInfect_body numInfected) [] clines)))"

section \<open>The dispatcher: \<open>pairCounts\<close>\<close>

text \<open>
  The selector \<open>metric\<close> is a float. \<open>int(metric)\<close> truncates towards zero. For metrics 2
  and 3 the code reads the parameter from the digits that follow the point in
  \<open>str(metric)\<close>; the text of a float is Python's business, so \<open>digits\<close> stands for
  the number those digits spell. A score is a count, or for metric 2 a slope.
\<close>

datatype 's score = Count int | Slope 's

definition py_int :: "real \<Rightarrow> int" where
  "py_int r = (if 0 \<le> r then \<lfloor>r\<rfloor> else \<lceil>r\<rceil>)"

definition counts :: "error + int pydict \<Rightarrow> error + ('s score) pydict" where
  "counts r = (case r of Inl e \<Rightarrow> Inl e | Inr d \<Rightarrow> Inr (map (\<lambda>(k, c). (k, Count c)) d))"

definition slopes :: "error + 's pydict \<Rightarrow> error + ('s score) pydict" where
  "slopes r = (case r of Inl e \<Rightarrow> Inl e | Inr d \<Rightarrow> Inr (map (\<lambda>(k, x). (k, Slope x)) d))"

definition pairCounts ::
  "(string \<Rightarrow> pyfloat option) \<Rightarrow> (nat \<Rightarrow> step list \<Rightarrow> error + 's) \<Rightarrow> (real \<Rightarrow> nat)
     \<Rightarrow> logfile \<Rightarrow> logfile \<Rightarrow> pyfloat \<Rightarrow> pyfloat \<Rightarrow> real \<Rightarrow> error + ('s score) pydict" where
  "pairCounts tofloat fit digits transmissionHist contactNet lowerBound upperBound metric =
     (if metric \<in> set [1, 2, 3, 4, 6] \<and> transmissionHist = NotSupplied
        then Inl (MissingInput ''TRANSMISSIONHIST'')
      else if metric \<in> set [5, 6] \<and> contactNet = NotSupplied
        then Inl (MissingInput ''CONTACTNET'')
      else if metric = 1
        then counts (directTransmissions tofloat transmissionHist lowerBound upperBound)
      else if py_int metric = 2
        then slopes (bestfitGraph tofloat fit transmissionHist lowerBound upperBound (digits metric))
      else if py_int metric = 3
        then counts (indirectTransmissions tofloat transmissionHist
                       (if digits metric < 2 then 2 else int (digits metric)) lowerBound upperBound)
      else if metric = 4
        then counts (totalTransmissions tofloat transmissionHist lowerBound upperBound)
      else if metric = 5
        then counts (numContacts contactNet lowerBound upperBound)
      else if metric = 6
        then counts (numContactInfect tofloat transmissionHist contactNet lowerBound upperBound)
      else Inl NoSuchMetric)"

section \<open>The rank matcher: \<open>matchInfectorCounts\<close>\<close>

text \<open>
  A score of the dictionary is a Python \<open>int\<close> (the counting metrics) or a Python
  \<open>float\<close> (the slopes of metric 2). The code writes a score with \<open>"%d"\<close> or with
  \<open>"%f"\<close>:
  \<^item> \<open>"%d" % x\<close> writes an \<open>int\<close> as it is, writes a float truncated towards zero, and
    raises for \<open>nan\<close> (\<open>ValueError\<close>, here \<open>NanConversionError\<close>) and for an infinity
    (\<open>OverflowError\<close>); \<open>format_d\<close> gives the integer that is written;
  \<^item> \<open>"%f" % x\<close> writes a float, also \<open>nan\<close> and the infinities, and writes an \<open>int\<close>
    after converting it to a float, which raises \<open>OverflowError\<close> for an \<open>int\<close> that
    rounds to no finite double; \<open>format_f\<close> gives the score that is written.
\<close>

datatype pynum = PyInt int | PyFloat pyfloat

definition format_d :: "pynum \<Rightarrow> error + int" where
  "format_d x =
     (case x of
        PyInt n \<Rightarrow> Inr n
      | PyFloat f \<Rightarrow>
          (case f of
             NaN \<Rightarrow> Inl NanConversionError
           | Num y \<Rightarrow> (case y of Fin r \<Rightarrow> Inr (py_int r) | MInf \<Rightarrow> Inl OverflowError
                                 | PInf \<Rightarrow> Inl OverflowError)))"

definition format_f :: "pynum \<Rightarrow> error + pynum" where
  "format_f x =
     (case x of
        PyInt n \<Rightarrow> if 2 ^ 1024 - 2 ^ 970 \<le> \<bar>n\<bar> then Inl OverflowError else Inr x
      | PyFloat f \<Rightarrow> Inr x)"

text \<open>
  The output file is the list of the lines written to it. A line is kept by its format
  and what the format writes: \<open>"%s\t%f\n"\<close> with the score, \<open>"%s\t%d\n"\<close> with the
  integer, or \<open>"%s\t0\n"\<close>. When the formatting raises, nothing is written for that
  line.
\<close>

datatype outline = FloatLine string pynum | IntLine string int | ZeroLine string

definition matchInfectorCounts_body ::
  "pynum pydict \<Rightarrow> real \<Rightarrow> outline list \<Rightarrow> string \<Rightarrow> error + outline list" where
  "matchInfectorCounts_body infectionsDict metric outfile line =
     (let p = strip line in
      case map_of infectionsDict p of
        Some x \<Rightarrow>
          if metric = 2
          then (case format_f x of Inl e \<Rightarrow> Inl e | Inr y \<Rightarrow> Inr (outfile @ [FloatLine p y]))
          else (case format_d x of Inl e \<Rightarrow> Inl e | Inr n \<Rightarrow> Inr (outfile @ [IntLine p n]))
      | None \<Rightarrow> Inr (outfile @ [ZeroLine p]))"

text \<open>
  The function returns nothing. Its effect is the pair of the output file after the call
  and of the exception that ended the loop, if one did: the lines written before the
  exception stay written.
\<close>

fun matchInfectorCounts ::
  "pynum pydict \<Rightarrow> string list \<Rightarrow> outline list \<Rightarrow> real \<Rightarrow> outline list \<times> error option" where
  "matchInfectorCounts infectionsDict [] outfile metric = (outfile, None)"
| "matchInfectorCounts infectionsDict (line # inputOrder) outfile metric =
     (case matchInfectorCounts_body infectionsDict metric outfile line of
        Inl e \<Rightarrow> (outfile, Some e)
      | Inr outfile' \<Rightarrow> matchInfectorCounts infectionsDict inputOrder outfile' metric)"



section \<open>The correlation evaluator: \<open>calculateTauB\<close>\<close>

text \<open>
  \<open>stats.kendalltau\<close> is library code: it is the parameter \<open>kendalltau\<close>, which returns
  the pair \<open>(tau, pvalue)\<close> or raises. The output file is the list of the pairs written.
\<close>

definition calculateTauB ::
  "(int list \<Rightarrow> 'a list \<Rightarrow> error + ('t \<times> 't)) \<Rightarrow> 'a list \<Rightarrow> ('t \<times> 't) list \<Rightarrow> bool
     \<Rightarrow> error + ('t \<times> 't) list" where
  "calculateTauB kendalltau userOrder outfile reverse =
     (let optimalOrder = (if \<not> reverse then rev [1 .. int (length userOrder)]
                          else [0 .. int (length userOrder) - 1])
      in case kendalltau optimalOrder userOrder of
           Inl e \<Rightarrow> Inl e
         | Inr (tau, pvalue) \<Rightarrow> Inr (outfile @ [(tau, pvalue)]))"

section \<open>The records of a log, and sample inputs\<close>

text \<open>
  The claims speak of the records of a log. \<open>transmission_records\<close> gives them for a
  transmission log: the three fields of every line, as they stand in the line, with the
  time read by \<open>tofloat\<close>. It fails where the loops of the metrics fail: at the first
  line that has not three fields or whose time is no number.
\<close>

definition parse_transmission ::
  "(string \<Rightarrow> pyfloat option) \<Rightarrow> string \<Rightarrow> error + (string \<times> string \<times> pyfloat)" where
  "parse_transmission tofloat line =
     (case unpack3 line of
        Inl e \<Rightarrow> Inl e
      | Inr (u, v, t) \<Rightarrow>
          (case tofloat t of None \<Rightarrow> Inl FloatError | Some ft \<Rightarrow> Inr (u, v, ft)))"

fun parse_all :: "('a \<Rightarrow> error + 'r) \<Rightarrow> 'a list \<Rightarrow> error + 'r list" where
  "parse_all parse [] = Inr []"
| "parse_all parse (x # xs) =
     (case parse x of
        Inl e \<Rightarrow> Inl e
      | Inr r \<Rightarrow> (case parse_all parse xs of Inl e \<Rightarrow> Inl e | Inr rs \<Rightarrow> Inr (r # rs)))"

definition transmission_records ::
  "(string \<Rightarrow> pyfloat option) \<Rightarrow> logfile \<Rightarrow> error + (string \<times> string \<times> pyfloat) list" where
  "transmission_records tofloat transmissionHist =
     (case opengzip transmissionHist of
        Inl e \<Rightarrow> Inl e
      | Inr lines \<Rightarrow> parse_all (parse_transmission tofloat) lines)"

text \<open>
  A record counts for its source when the bounds test of the loops does not skip it
  (neither \<open>lowerBound > t\<close> nor \<open>t > upperBound\<close> holds) and its trimmed source is not
  the sentinel. \<open>numbers\<close> keeps the times of a list that are not \<open>nan\<close>.
\<close>

definition counted :: "pyfloat \<Rightarrow> pyfloat \<Rightarrow> string \<times> string \<times> pyfloat \<Rightarrow> bool" where
  "counted lowerBound upperBound r =
     (case r of (u, v, t) \<Rightarrow>
        \<not> py_gt lowerBound t \<and> \<not> py_gt t upperBound \<and> strip u \<noteq> ''None'')"

definition numbers :: "pyfloat list \<Rightarrow> xreal list" where
  "numbers ts = concat (map (\<lambda>t. case t of NaN \<Rightarrow> [] | Num x \<Rightarrow> [x]) ts)"

text \<open>The text of a log from its rows of fields, for the sample inputs.\<close>

fun join_sep :: "char \<Rightarrow> string list \<Rightarrow> string" where
  "join_sep c [] = []"
| "join_sep c [f] = f"
| "join_sep c (f # g # fs) = f @ c # join_sep c (g # fs)"

definition log_text :: "string list list \<Rightarrow> string" where
  "log_text rows = join_sep LF (map (join_sep TAB_CHAR) rows)"

text \<open>
  A stand-in for \<open>float\<close> on the sample inputs: it reads \<open>nan\<close>, \<open>inf\<close> and a decimal
  integer with an optional minus sign, on which \<open>float\<close> is exact, and rejects
  everything else.
\<close>

fun nat_of_digits :: "nat \<Rightarrow> string \<Rightarrow> nat option" where
  "nat_of_digits acc [] = Some acc"
| "nat_of_digits acc (c # cs) =
     (case map_of [(CHR ''0'', 0), (CHR ''1'', 1), (CHR ''2'', 2), (CHR ''3'', 3), (CHR ''4'', 4),
                   (CHR ''5'', 5), (CHR ''6'', 6), (CHR ''7'', 7), (CHR ''8'', 8), (CHR ''9'', 9::nat)] c of
        None \<Rightarrow> None
      | Some d \<Rightarrow> nat_of_digits (10 * acc + d) cs)"

definition float_of_literal :: "string \<Rightarrow> pyfloat option" where
  "float_of_literal s =
     (if s = ''nan'' then Some NaN
      else if s = ''inf'' then Some PosInf
      else case s of
        [] \<Rightarrow> None
      | c # cs \<Rightarrow>
          if c = CHR ''-''
          then (if cs = [] then None else map_option (\<lambda>n. Finite (- real n)) (nat_of_digits 0 cs))
          else map_option (\<lambda>n. Finite (real n)) (nat_of_digits 0 s))"

definition chain_log :: logfile where
  "chain_log = Content (log_text [[''A'', ''B'', ''1''], [''B'', ''C'', ''2'']])"

definition bounded_log :: logfile where
  "bounded_log = Content (log_text [[''A'', ''B'', ''1''], [''A '', ''C'', ''2''], [''None'', ''A'', ''0''],
                                     [''A'', ''D'', ''9''], [''A'', ''E'', ''nan'']])"

definition nan_log :: logfile where
  "nan_log = Content (log_text [[''A'', ''B'', ''nan'']])"

section \<open>The loops as folds over the records\<close>

text \<open>
  What the first loop of the counting metrics does with one record, once its line is
  read: the step of \<open>numInfected_body\<close>.
\<close>

definition count_source ::
  "pyfloat \<Rightarrow> pyfloat \<Rightarrow> string \<times> string \<times> pyfloat \<Rightarrow> int pydict \<Rightarrow> int pydict" where
  "count_source lowerBound upperBound r numInfected =
     (case r of (u0, v0, ft) \<Rightarrow>
        if py_gt lowerBound ft \<or> py_gt ft upperBound then numInfected
        else if strip u0 = ''None'' then numInfected
        else add_at (strip u0) 1 (setdefault (strip u0) 0 numInfected))"

text \<open>The step of \<open>numIndirect_body\<close>.\<close>

definition indirect_step ::
  "pyfloat \<Rightarrow> pyfloat \<Rightarrow> int pydict \<Rightarrow> string \<times> string \<times> pyfloat \<Rightarrow> int pydict \<Rightarrow> int pydict" where
  "indirect_step lowerBound upperBound numInfected r numIndirect =
     (case r of (u0, v0, ft) \<Rightarrow>
        if py_gt lowerBound ft \<or> py_gt ft upperBound then numIndirect
        else if strip u0 = ''None'' then numIndirect
        else (let d = setdefault (strip u0) 0 numIndirect in
              case map_of numInfected (strip v0) of Some c \<Rightarrow> add_at (strip u0) c d | None \<Rightarrow> d))"

text \<open>
  The score that a dictionary gives an individual, with the rank matcher's default for
  an individual without an entry, and the total the specification states for metric 4:
  the direct count of the individual plus the direct count of the destination of every
  counted record of which the individual is the source.
\<close>

definition score_of :: "int pydict \<Rightarrow> string \<Rightarrow> int" where
  "score_of d p = (case map_of d p of None \<Rightarrow> 0 | Some c \<Rightarrow> c)"

definition stated_total ::
  "int pydict \<Rightarrow> pyfloat \<Rightarrow> pyfloat \<Rightarrow> (string \<times> string \<times> pyfloat) list \<Rightarrow> string \<Rightarrow> int" where
  "stated_total direct lowerBound upperBound rs p =
     score_of direct p +
     sum_list (map (\<lambda>r. score_of direct (strip (fst (snd r))))
                   (filter (\<lambda>r. counted lowerBound upperBound r \<and> strip (fst r) = p) rs))"

text \<open>
  \<open>kendalltau_on_empty\<close> is \<open>stats.kendalltau\<close> where a sequence is empty: it returns
  \<open>(nan, nan)\<close> and does not raise. What it computes elsewhere is left out (an error of
  the library stands there).
\<close>

definition kendalltau_on_empty :: "int list \<Rightarrow> real list \<Rightarrow> error + (pyfloat \<times> pyfloat)" where
  "kendalltau_on_empty x y = (if x = [] \<or> y = [] then Inr (NaN, NaN) else Inl LibraryError)"

section \<open>Definitions for the statements about metric 3\<close>

text \<open>
  \<open>out_list direct v\<close> is the list of destinations \<open>direct[v]\<close>, empty for an
  individual without an entry; \<open>direct_step\<close> is the step of \<open>direct_body\<close> on a record;
  \<open>expand\<close> is what one round of the degree loop makes of an entry of \<open>lastDegree\<close>;
  \<open>targets_known direct d\<close> says that every individual listed in \<open>d\<close> has an entry
  in \<open>direct\<close>.
\<close>

definition out_list :: "(string list) pydict \<Rightarrow> string \<Rightarrow> string list" where
  "out_list direct v = (case map_of direct v of None \<Rightarrow> [] | Some l \<Rightarrow> l)"

definition direct_step ::
  "pyfloat \<Rightarrow> pyfloat \<Rightarrow> string \<times> string \<times> pyfloat \<Rightarrow> (string list) pydict \<Rightarrow> (string list) pydict" where
  "direct_step lowerBound upperBound r direct =
     (case r of (u0, v0, ft) \<Rightarrow>
        if py_gt lowerBound ft \<or> py_gt ft upperBound then direct
        else if strip u0 = ''None'' then direct
        else extend_at (strip u0) [strip v0] (setdefault (strip v0) [] (setdefault (strip u0) [] direct)))"

definition expand :: "(string list) pydict \<Rightarrow> string \<times> string list \<Rightarrow> string \<times> string list" where
  "expand direct entry = (fst entry, concat (map (out_list direct) (snd entry)))"

definition targets_known :: "(string list) pydict \<Rightarrow> (string list) pydict \<Rightarrow> bool" where
  "targets_known direct d = (\<forall>e \<in> set d. set (snd e) \<subseteq> fst ` set direct)"

section \<open>Definitions for the statements about metric 2\<close>

text \<open>
  \<open>later_time\<close> is the update of \<open>latestInfectionTime\<close> by one time, and
  \<open>times_step\<close> is the step of \<open>timesInfected_body\<close> on a record. \<open>times_of\<close> lists
  the times of the counted records of one source, in the order of the log, and
  \<open>counted_times\<close> the times of all counted records. \<open>steps_list\<close> is the list of steps
  that \<open>steps_of\<close> returns for a list of times that is not empty. \<open>show_steps\<close> is the
  choice of \<open>fit\<close> that returns the steps themselves, so that \<open>bestfitGraph\<close> shows
  what it hands to the regression.
\<close>

definition later_time :: "pyfloat \<Rightarrow> pyfloat \<Rightarrow> pyfloat" where
  "later_time t latestInfectionTime = (if py_gt t latestInfectionTime then t else latestInfectionTime)"

definition times_step ::
  "pyfloat \<Rightarrow> pyfloat \<Rightarrow> bool \<Rightarrow> string \<times> string \<times> pyfloat \<Rightarrow> (pyfloat list) pydict \<times> pyfloat
     \<Rightarrow> (pyfloat list) pydict \<times> pyfloat" where
  "times_step lowerBound upperBound isUpperBoundSet r state =
     (case r of (u0, v0, ft) \<Rightarrow>
        if py_gt lowerBound ft \<or> py_gt ft upperBound then state
        else if strip u0 = ''None'' then state
        else (extend_at (strip u0) [ft] (setdefault (strip u0) [] (fst state)),
              if \<not> isUpperBoundSet \<and> py_gt ft (snd state) then ft else snd state))"

definition times_of :: "pyfloat \<Rightarrow> pyfloat \<Rightarrow> (string \<times> string \<times> pyfloat) list \<Rightarrow> string \<Rightarrow> pyfloat list" where
  "times_of lowerBound upperBound rs p =
     map (\<lambda>r. snd (snd r)) (filter (\<lambda>r. counted lowerBound upperBound r \<and> strip (fst r) = p) rs)"

definition counted_times :: "pyfloat \<Rightarrow> pyfloat \<Rightarrow> (string \<times> string \<times> pyfloat) list \<Rightarrow> pyfloat list" where
  "counted_times lowerBound upperBound rs =
     map (\<lambda>r. snd (snd r)) (filter (counted lowerBound upperBound) rs)"

definition steps_list :: "pyfloat \<Rightarrow> pyfloat \<Rightarrow> pyfloat list \<Rightarrow> step list" where
  "steps_list lowerBound latestInfectionTime tms =
     (lowerBound, hd tms, 0) #
     map (\<lambda>i. if i = length tms - 1
              then (tms ! i, latestInfectionTime, int i + 1)
              else (tms ! i, tms ! (i + 1), int i + 1))
         [0 ..< length tms]"

definition show_steps :: "nat \<Rightarrow> step list \<Rightarrow> error + step list" where
  "show_steps numPointsPerStep steps = Inr steps"

text \<open>Sample logs for metric 2.\<close>

definition trend_log :: logfile where
  "trend_log = Content (log_text [[''A'', ''B'', ''1''], [''A'', ''C'', ''5''], [''B'', ''C'', ''7''],
                                   [''B'', ''D'', ''nan'']])"

definition seed_late_log :: logfile where
  "seed_late_log = Content (log_text [[''A'', ''B'', ''1''], [''None'', ''C'', ''5'']])"

definition negative_log :: logfile where
  "negative_log = Content (log_text [[''A'', ''B'', ''-5'']])"

section \<open>Definitions for the statements about the keys\<close>

text \<open>
  The individuals that the counted records of a transmission log name: their trimmed
  sources, and their trimmed destinations.
\<close>

definition sources :: "pyfloat \<Rightarrow> pyfloat \<Rightarrow> (string \<times> string \<times> pyfloat) list \<Rightarrow> string set" where
  "sources lowerBound upperBound rs =
     set (map (\<lambda>r. strip (fst r)) (filter (counted lowerBound upperBound) rs))"

definition destinations :: "pyfloat \<Rightarrow> pyfloat \<Rightarrow> (string \<times> string \<times> pyfloat) list \<Rightarrow> string set" where
  "destinations lowerBound upperBound rs =
     set (map (\<lambda>r. strip (fst (snd r))) (filter (counted lowerBound upperBound) rs))"

text \<open>
  The steps of \<open>numContacts_body\<close> and of \<open>numContactInfect_body\<close> on a contact record,
  the records of a contact log (the five fields of every line that is no header), and
  the participants they name: the trimmed second field and the third field of every
  record whose trimmed first field is not \<open>'None'\<close>.
\<close>

definition contact_step ::
  "string \<times> string \<times> string \<times> string \<times> string \<Rightarrow> int pydict \<Rightarrow> int pydict" where
  "contact_step c numberContacts =
     (case c of (u0, v0, t, w, x) \<Rightarrow>
        if strip u0 = ''None'' then numberContacts
        else add_at t 1 (add_at (strip v0) 1 (setdefault t 0 (setdefault (strip v0) 0 numberContacts))))"

definition contact_infect_step ::
  "int pydict \<Rightarrow> string \<times> string \<times> string \<times> string \<times> string \<Rightarrow> int pydict \<Rightarrow> int pydict" where
  "contact_infect_step numInfected c numberContacts =
     (case c of (u0, v0, t, w, x) \<Rightarrow>
        if strip u0 = ''None'' then numberContacts
        else (let d = setdefault t 0 (setdefault (strip v0) 0 numberContacts);
                  d' = (case map_of numInfected t of Some c \<Rightarrow> add_at (strip v0) c d | None \<Rightarrow> d)
              in case map_of numInfected (strip v0) of Some c \<Rightarrow> add_at t c d' | None \<Rightarrow> d'))"

definition contact_records ::
  "logfile \<Rightarrow> error + (string \<times> string \<times> string \<times> string \<times> string) list" where
  "contact_records contactNet =
     (case opengzip contactNet of
        Inl e \<Rightarrow> Inl e
      | Inr lines \<Rightarrow> parse_all unpack5 (filter (\<lambda>line. take 4 line \<noteq> ''NODE'') lines))"

definition participants :: "(string \<times> string \<times> string \<times> string \<times> string) list \<Rightarrow> string set" where
  "participants cs =
     set (concat (map (\<lambda>c. [strip (fst (snd c)), fst (snd (snd c))])
                      (filter (\<lambda>c. strip (fst c) \<noteq> ''None'') cs)))"

text \<open>
  The digits after the point of a selector without a fractional part (\<open>1.0\<close>, \<open>3.0\<close>)
  spell 0; and a sample contact log.
\<close>

definition zero_digits :: "real \<Rightarrow> nat" where
  "zero_digits metric = 0"

definition contact_log :: logfile where
  "contact_log = Content (log_text [[''NODE'', ''A'', ''.''], [''EDGE'', ''A'', ''B'', ''.'', ''u''],
                                     [''None'', ''A'', ''C'', ''.'', ''u'']])"

section \<open>Lemmas about the Python values\<close>

lemma for_each_fusion:
  assumes "\<And>s x. x \<in> set xs \<Longrightarrow>
             body s x = (case parse x of Inl e \<Rightarrow> Inl e | Inr r \<Rightarrow> Inr (step r s))"
  shows "for_each body s xs =
           (case parse_all parse xs of Inl e \<Rightarrow> Inl e | Inr rs \<Rightarrow> Inr (fold step rs s))"
  using assms by (induction xs arbitrary: s) (auto split: sum.splits)

lemma for_each_append:
  "for_each body s (xs @ ys) =
     (case for_each body s xs of Inl e \<Rightarrow> Inl e | Inr s' \<Rightarrow> for_each body s' ys)"
  by (induction xs arbitrary: s) (auto split: sum.splits)

lemma lstrip_hd: "lstrip s \<noteq> [] \<Longrightarrow> \<not> isspace (hd (lstrip s))"
  unfolding lstrip_def by (metis hd_dropWhile)

lemma rstrip_hd: "rstrip s \<noteq> [] \<Longrightarrow> hd (rstrip s) = hd s"
  unfolding rstrip_def
  by (metis hd_rev last_rev rev_is_Nil_conv takeWhile_dropWhile_id last_appendR)

lemma strip_hd: "strip s \<noteq> [] \<Longrightarrow> \<not> isspace (hd (strip s))"
  unfolding strip_def
  by (metis lstrip_hd rstrip_hd rstrip_def dropWhile.simps(1) rev.simps(1))

lemma split_sep_nonempty: "split_sep sep s \<noteq> []"
  by (induction s) (auto split: list.splits)

lemma split_sep_hd: "hd (split_sep sep s) = takeWhile (\<lambda>c. c \<noteq> sep) s"
  by (induction s) (auto split: list.splits simp: split_sep_nonempty)

lemma isspace_TAB: "isspace TAB_CHAR"
  by (simp add: isspace_def)

lemma strip_nonempty:
  assumes "u \<noteq> []" "\<not> isspace (hd u)"
  shows "strip u \<noteq> []"
proof -
  from assms have l: "lstrip u = u"
    by (cases u) (simp_all add: lstrip_def)
  have "hd u \<in> set (rev u)" using assms(1) by simp
  then have "dropWhile isspace (rev u) \<noteq> []"
    using assms(2) by (metis dropWhile_eq_Nil_conv)
  then show ?thesis
    by (simp add: strip_def l rstrip_def)
qed

text \<open>
  A line that \<open>opengzip\<close> returns is stripped, so it does not start with a tab: when it
  has three fields, the first one is not empty, also after trimming.
\<close>

lemma first_field_nonempty:
  assumes "unpack3 (strip x) = Inr (u, v, t)"
  shows "strip u \<noteq> []"
proof -
  let ?l = "strip x"
  from assms have sp: "split_sep TAB_CHAR ?l = [u, v, t]"
    by (auto simp: unpack3_def split: list.splits)
  then have u: "u = takeWhile (\<lambda>c. c \<noteq> TAB_CHAR) ?l"
    using split_sep_hd [of TAB_CHAR ?l] by simp
  have ne: "?l \<noteq> []"
    using sp by auto
  then have ns: "\<not> isspace (hd ?l)"
    by (rule strip_hd)
  then have "hd ?l \<noteq> TAB_CHAR"
    using isspace_TAB by auto
  with ne u have "u \<noteq> [] \<and> hd u = hd ?l"
    by (cases ?l) auto
  with ns show ?thesis
    by (simp add: strip_nonempty)
qed

lemma opengzip_stripped:
  assumes "opengzip f = Inr lines" "l \<in> set lines"
  shows "\<exists>x. l = strip x"
  using assms by (auto simp: opengzip_def split: logfile.splits)

lemma map_of_setdefault:
  "map_of (setdefault k v d) p = (if p = k \<and> map_of d k = None then Some v else map_of d p)"
  by (simp add: setdefault_def update_conv')

lemma map_of_add_at:
  "map_of (add_at k n d) p = (if p = k then map_option (\<lambda>c. c + n) (map_of d k) else map_of d p)"
  by (simp add: add_at_def update_conv' split: option.splits)

lemma keys_setdefault: "fst ` set (setdefault k v d) = insert k (fst ` set d)"
  by (auto simp: setdefault_def dom_update map_of_eq_None_iff)

lemma keys_add_at: "fst ` set (add_at k n d) = fst ` set d"
  by (auto simp: add_at_def dom_update split: option.splits dest: map_of_SomeD intro: rev_image_eqI)

lemma distinct_setdefault: "distinct (map fst d) \<Longrightarrow> distinct (map fst (setdefault k v d))"
  by (simp add: setdefault_def distinct_update)

lemma distinct_add_at: "distinct (map fst d) \<Longrightarrow> distinct (map fst (add_at k n d))"
  by (simp add: add_at_def distinct_update split: option.splits)

section \<open>Lemmas about the counting loops\<close>

lemma directTransmissions_body_parse:
  assumes "\<exists>x. line = strip x"
  shows "directTransmissions_body tofloat lo hi d line =
     (case parse_transmission tofloat line of
        Inl e \<Rightarrow> Inl e
      | Inr r \<Rightarrow> Inr (count_source lo hi r d))"
  using assms first_field_nonempty
  by (auto simp: directTransmissions_body_def parse_transmission_def count_source_def Let_def
           split: sum.splits option.splits prod.splits)

lemma numInfected_body_parse:
  "numInfected_body tofloat lo hi d line =
     (case parse_transmission tofloat line of
        Inl e \<Rightarrow> Inl e
      | Inr r \<Rightarrow> Inr (count_source lo hi r d))"
  by (auto simp: numInfected_body_def parse_transmission_def count_source_def Let_def
           split: sum.splits option.splits prod.splits)

lemma numIndirect_body_parse:
  "numIndirect_body tofloat lo hi ni d line =
     (case parse_transmission tofloat line of
        Inl e \<Rightarrow> Inl e
      | Inr r \<Rightarrow> Inr (indirect_step lo hi ni r d))"
  by (auto simp: numIndirect_body_def parse_transmission_def indirect_step_def Let_def
           split: sum.splits option.splits prod.splits)

lemma distinct_count_source:
  "distinct (map fst d) \<Longrightarrow> distinct (map fst (count_source lo hi r d))"
  by (auto simp: count_source_def distinct_add_at distinct_setdefault split: prod.splits)

lemma distinct_fold_count_source:
  "distinct (map fst d) \<Longrightarrow> distinct (map fst (fold (count_source lo hi) rs d))"
  by (induction rs arbitrary: d) (simp_all add: distinct_count_source)

lemma map_of_count_source:
  "map_of (count_source lo hi r d) p =
     (if counted lo hi r \<and> strip (fst r) = p
      then Some ((case map_of d p of None \<Rightarrow> 0 | Some c \<Rightarrow> c) + 1)
      else map_of d p)"
  by (cases r) (auto simp: count_source_def counted_def map_of_add_at map_of_setdefault not_le
                     split: option.splits)

lemma map_of_fold_count_source:
  "map_of (fold (count_source lo hi) rs d) p =
     (let n = int (length (filter (\<lambda>r. counted lo hi r \<and> strip (fst r) = p) rs)) in
      case map_of d p of
        None \<Rightarrow> if n = 0 then None else Some n
      | Some c \<Rightarrow> Some (c + n))"
proof (induction rs arbitrary: d)
  case Nil
  then show ?case by (simp split: option.splits)
next
  case (Cons r rs)
  show ?case
    by (simp add: Cons.IH map_of_count_source Let_def split: option.splits)
qed

lemma directTransmissions_records:
  "directTransmissions tofloat th lo hi =
     (case transmission_records tofloat th of
        Inl e \<Rightarrow> Inl e
      | Inr rs \<Rightarrow> Inr (fold (count_source lo hi) rs []))"
proof (cases "opengzip th")
  case (Inl e)
  then show ?thesis
    by (simp add: directTransmissions_def transmission_records_def)
next
  case (Inr lines)
  have "for_each (directTransmissions_body tofloat lo hi) [] lines =
        (case parse_all (parse_transmission tofloat) lines of
           Inl e \<Rightarrow> Inl e | Inr rs \<Rightarrow> Inr (fold (count_source lo hi) rs []))"
    by (rule for_each_fusion) (simp add: directTransmissions_body_parse opengzip_stripped [OF Inr])
  with Inr show ?thesis
    by (simp add: directTransmissions_def transmission_records_def)
qed

text \<open>The third loop of \<open>totalTransmissions\<close> rebuilds \<open>numInfected\<close>, entry by entry.\<close>

lemma fold_numTotal_body:
  "distinct (map fst (acc @ ys)) \<Longrightarrow>
   fold (numTotal_body (acc @ ys) numIndirect) (map fst ys) acc = acc @ ys"
proof (induction ys arbitrary: acc)
  case Nil
  then show ?case by simp
next
  case (Cons y ys)
  obtain k c where y: "y = (k, c)" by (cases y)
  from Cons.prems y have k: "k \<notin> fst ` set acc" "map_of acc k = None"
    by (auto simp: map_of_eq_None_iff)
  then have look: "map_of (acc @ y # ys) k = Some c"
    by (simp add: y map_add_def)
  have upd: "AList.update k x acc = acc @ [(k, x)]" for x :: int
    using k(1) by (induction acc) auto
  have upd2: "AList.update k x (acc @ [(k, x')]) = acc @ [(k, x)]" for x x' :: int
    using k(1) by (induction acc) auto
  have step: "numTotal_body (acc @ y # ys) numIndirect k acc = acc @ [y]"
    using look k
    by (simp add: numTotal_body_def setdefault_def add_at_def upd upd2 y map_add_def Let_def
             split: option.splits)
  have "distinct (map fst ((acc @ [y]) @ ys))"
    using Cons.prems by simp
  from Cons.IH [OF this] show ?case
    by (simp add: y step [unfolded y])
qed

lemma totalTransmissions_records:
  "totalTransmissions tofloat th lo hi =
     (case transmission_records tofloat th of
        Inl e \<Rightarrow> Inl e
      | Inr rs \<Rightarrow> Inr (fold (count_source lo hi) rs []))"
proof (cases "opengzip th")
  case (Inl e)
  then show ?thesis
    by (simp add: totalTransmissions_def transmission_records_def)
next
  case (Inr lines)
  let ?P = "parse_all (parse_transmission tofloat) lines"
  have first: "for_each (numInfected_body tofloat lo hi) [] lines =
        (case ?P of Inl e \<Rightarrow> Inl e | Inr rs \<Rightarrow> Inr (fold (count_source lo hi) rs []))"
    by (rule for_each_fusion) (simp add: numInfected_body_parse)
  have second: "for_each (numIndirect_body tofloat lo hi ni) [] lines =
        (case ?P of Inl e \<Rightarrow> Inl e | Inr rs \<Rightarrow> Inr (fold (indirect_step lo hi ni) rs []))" for ni
    by (rule for_each_fusion) (simp add: numIndirect_body_parse)
  show ?thesis
  proof (cases ?P)
    case (Inl e)
    then show ?thesis
      using Inr by (simp add: totalTransmissions_def transmission_records_def first)
  next
    case (Inr rs)
    let ?d = "fold (count_source lo hi) rs []"
    have "distinct (map fst ([] @ ?d))"
      by (simp add: distinct_fold_count_source)
    from fold_numTotal_body [OF this]
    have "fold (numTotal_body ?d ni) (map fst ?d) [] = ?d" for ni
      by simp
    then show ?thesis
      using Inr \<open>opengzip th = Inr lines\<close>
      by (simp add: totalTransmissions_def transmission_records_def first second)
  qed
qed

section \<open>Evaluating the sample inputs\<close>

lemmas sample_defs = log_text_def opengzip_def strip_def lstrip_def rstrip_def isspace_def islinebreak_def
  splitlines_def unpack3_def unpack5_def float_of_literal_def parse_transmission_def transmission_records_def

section \<open>Metric 1: the direct count\<close>

lemma count_source_ignores_destination:
  "fst r = fst r' \<Longrightarrow> snd (snd r) = snd (snd r') \<Longrightarrow> count_source lo hi r d = count_source lo hi r' d"
  by (cases r; cases r') (simp add: count_source_def)

lemma fold_count_source_ignores_destination:
  "map (\<lambda>r. (fst r, snd (snd r))) rs = map (\<lambda>r. (fst r, snd (snd r))) rs' \<Longrightarrow>
   fold (count_source lo hi) rs d = fold (count_source lo hi) rs' d"
proof (induction rs arbitrary: rs' d)
  case Nil
  then show ?case by simp
next
  case (Cons r rs)
  then obtain r' rs1 where rs': "rs' = r' # rs1" by (cases rs') auto
  with Cons.prems have "fst r = fst r'" "snd (snd r) = snd (snd r')"
    "map (\<lambda>r. (fst r, snd (snd r))) rs = map (\<lambda>r. (fst r, snd (snd r))) rs1"
    by simp_all
  then show ?case
    using Cons.IH [of rs1] count_source_ignores_destination [of r r' lo hi d]
    by (simp add: rs')
qed

text \<open>
  For bounds that are numbers, the bounds test keeps a time that is \<open>nan\<close> or lies
  between the bounds, both included.
\<close>

lemma bounds_test_numbers:
  "(\<not> py_gt (Num a) t \<and> \<not> py_gt t (Num b)) = (case t of NaN \<Rightarrow> True | Num x \<Rightarrow> a \<le> x \<and> x \<le> b)"
  by (cases t) (auto simp: not_less)

text \<open>
  Claim C7, as amended. Whenever the log reads as records, \<open>directTransmissions\<close> returns
  a dictionary in which an individual \<open>p\<close> has the number of records whose trimmed source
  is \<open>p\<close>, is not \<open>'None'\<close>, and whose time \<open>t\<close> the bounds test does not skip: neither
  \<open>lower > t\<close> nor \<open>t > upper\<close> holds. For bounds that are numbers these are the
  records with \<open>lower \<le> t \<le> upper\<close> and the records whose time is \<open>nan\<close>. An
  individual with no such record has no entry. The destination plays no role: a log
  whose records have the same sources and times gives the same dictionary.
\<close>

theorem directTransmissions_counts:
  assumes "transmission_records tofloat transmissionHist = Inr rs"
  shows "\<exists>numInfected.
           directTransmissions tofloat transmissionHist lowerBound upperBound = Inr numInfected \<and>
           distinct (map fst numInfected) \<and>
           (\<forall>p. map_of numInfected p =
              (let n = int (length (filter (\<lambda>(u, v, t). strip u = p \<and> strip u \<noteq> ''None'' \<and>
                                              \<not> py_gt lowerBound t \<and> \<not> py_gt t upperBound) rs))
               in if n = 0 then None else Some n)) \<and>
           (\<forall>a b p. lowerBound = Num a \<and> upperBound = Num b \<longrightarrow>
              map_of numInfected p =
              (let n = int (length (filter (\<lambda>(u, v, t). strip u = p \<and> strip u \<noteq> ''None'' \<and>
                                              (case t of NaN \<Rightarrow> True | Num x \<Rightarrow> a \<le> x \<and> x \<le> b)) rs))
               in if n = 0 then None else Some n)) \<and>
           (\<forall>other rs'. transmission_records tofloat other = Inr rs' \<and>
               map (\<lambda>(u, v, t). (u, t)) rs' = map (\<lambda>(u, v, t). (u, t)) rs \<longrightarrow>
               directTransmissions tofloat other lowerBound upperBound = Inr numInfected)"
proof -
  let ?d = "fold (count_source lowerBound upperBound) rs []"
  have eq: "(\<lambda>r. counted lowerBound upperBound r \<and> strip (fst r) = p) =
            (\<lambda>(u, v, t). strip u = p \<and> strip u \<noteq> ''None'' \<and>
                         \<not> py_gt lowerBound t \<and> \<not> py_gt t upperBound)" for p
    by (auto simp: counted_def fun_eq_iff)
  have res: "directTransmissions tofloat transmissionHist lowerBound upperBound = Inr ?d"
    using assms by (simp add: directTransmissions_records)
  have dist: "distinct (map fst ?d)"
    by (simp add: distinct_fold_count_source)
  have look: "map_of ?d p =
       (let n = int (length (filter (\<lambda>(u, v, t). strip u = p \<and> strip u \<noteq> ''None'' \<and>
                                              \<not> py_gt lowerBound t \<and> \<not> py_gt t upperBound) rs))
        in if n = 0 then None else Some n)" for p
    by (simp add: map_of_fold_count_source eq)
  have nums: "map_of ?d p =
       (let n = int (length (filter (\<lambda>(u, v, t). strip u = p \<and> strip u \<noteq> ''None'' \<and>
                                       (case t of NaN \<Rightarrow> True | Num x \<Rightarrow> a \<le> x \<and> x \<le> b)) rs))
        in if n = 0 then None else Some n)"
    if "lowerBound = Num a" "upperBound = Num b" for a b p
  proof -
    have e: "(case t of NaN \<Rightarrow> True | Num x \<Rightarrow> a \<le> x \<and> x \<le> b) =
             (\<not> py_gt (Num a) t \<and> \<not> py_gt t (Num b))" for t
      by (simp add: bounds_test_numbers)
    show ?thesis
      unfolding e using look [of p] that by simp
  qed
  have same: "directTransmissions tofloat other lowerBound upperBound = Inr ?d"
    if "transmission_records tofloat other = Inr rs'"
      "map (\<lambda>(u, v, t). (u, t)) rs' = map (\<lambda>(u, v, t). (u, t)) rs" for other rs'
  proof -
    have "(\<lambda>(u, v, t). (u, t)) = (\<lambda>r :: string \<times> string \<times> pyfloat. (fst r, snd (snd r)))"
      by (simp add: fun_eq_iff)
    with that(2) have "map (\<lambda>r. (fst r, snd (snd r))) rs' = map (\<lambda>r. (fst r, snd (snd r))) rs"
      by simp
    from fold_count_source_ignores_destination [OF this] that(1) show ?thesis
      by (simp add: directTransmissions_records)
  qed
  from res dist look nums same show ?thesis
    by (intro exI [of _ ?d] conjI allI impI) (simp_all del: fold_simps)
qed

lemma bounded_log_records:
  "transmission_records float_of_literal bounded_log =
     Inr [(''A'', ''B'', Finite 1), (''A '', ''C'', Finite 2), (''None'', ''A'', Finite 0),
          (''A'', ''D'', Finite 9), (''A'', ''E'', NaN)]"
  by (simp add: bounded_log_def sample_defs)

theorem directTransmissions_counts_witness:
  "\<exists>numInfected.
     directTransmissions float_of_literal bounded_log (Finite 0) (Finite 5) = Inr numInfected \<and>
     distinct (map fst numInfected) \<and>
     map_of numInfected ''A'' = Some 3 \<and> map_of numInfected ''None'' = None"
proof -
  from directTransmissions_counts [OF bounded_log_records, of "Finite 0" "Finite 5"]
  obtain d where d: "directTransmissions float_of_literal bounded_log (Finite 0) (Finite 5) = Inr d"
    "distinct (map fst d)"
    "\<forall>p. map_of d p =
              (let n = int (length (filter (\<lambda>(u, v, t). strip u = p \<and> strip u \<noteq> ''None'' \<and>
                                              \<not> py_gt (Finite 0) t \<and> \<not> py_gt t (Finite 5))
                 [(''A'', ''B'', Finite 1), (''A '', ''C'', Finite 2), (''None'', ''A'', Finite 0),
                  (''A'', ''D'', Finite 9), (''A'', ''E'', NaN)]))
               in if n = 0 then None else Some n)"
    by (elim exE conjE)
  have "map_of d ''A'' = Some 3" "map_of d ''None'' = None"
    by (simp_all add: d(3) [rule_format] strip_def lstrip_def rstrip_def isspace_def less_xreal_def)
  with d(1,2) show ?thesis by blast
qed

text \<open>
  A record whose time is \<open>nan\<close> is counted whatever the bounds: with the bounds 0 and 5,
  the log with the one record \<open>A \<rightarrow> B\<close> at time \<open>nan\<close> gives \<open>A\<close> the score 1, and no
  record of the log has a time between the bounds.
\<close>

lemma nan_log_records:
  "transmission_records float_of_literal nan_log = Inr [(''A'', ''B'', NaN)]"
  by (simp add: nan_log_def sample_defs)

theorem directTransmissions_counts_counterexample:
  "transmission_records float_of_literal nan_log = Inr [(''A'', ''B'', NaN)] \<and>
   directTransmissions float_of_literal nan_log (Finite 0) (Finite 5) = Inr [(''A'', 1)] \<and>
   filter (\<lambda>(u, v, t). strip u = ''A'' \<and> strip u \<noteq> ''None'' \<and>
                       (case t of NaN \<Rightarrow> False | Num x \<Rightarrow> Fin 0 \<le> x \<and> x \<le> Fin 5))
     [(''A'', ''B'', NaN)] = []"
  by (simp add: nan_log_records directTransmissions_records count_source_def setdefault_def add_at_def
       strip_def lstrip_def rstrip_def isspace_def)

section \<open>Metric 4: the total count\<close>

text \<open>
  Claim C2. The indirect tally of \<open>totalTransmissions\<close> is computed and dropped: on
  every log and for all bounds the function returns what \<open>directTransmissions\<close> returns,
  the same dictionary or the same error.
\<close>

theorem totalTransmissions_is_directTransmissions:
  "totalTransmissions tofloat transmissionHist lowerBound upperBound =
   directTransmissions tofloat transmissionHist lowerBound upperBound"
  by (simp add: totalTransmissions_records directTransmissions_records)

lemma chain_log_records:
  "transmission_records float_of_literal chain_log =
     Inr [(''A'', ''B'', Finite 1), (''B'', ''C'', Finite 2)]"
  by (simp add: chain_log_def sample_defs)

text \<open>
  Claim C1. The total stated for metric 4 is the direct count plus the direct counts of
  the individuals directly infected. On the log with the records \<open>A \<rightarrow> B\<close> at time 1 and
  \<open>B \<rightarrow> C\<close> at time 2 the stated total of \<open>A\<close> is 2, and \<open>totalTransmissions\<close> gives
  \<open>A\<close> the score 1, its direct count.
\<close>

theorem totalTransmissions_omits_indirect:
  "transmission_records float_of_literal chain_log =
     Inr [(''A'', ''B'', Finite 1), (''B'', ''C'', Finite 2)] \<and>
   directTransmissions float_of_literal chain_log (Finite 0) PosInf = Inr [(''A'', 1), (''B'', 1)] \<and>
   totalTransmissions float_of_literal chain_log (Finite 0) PosInf = Inr [(''A'', 1), (''B'', 1)] \<and>
   stated_total [(''A'', 1), (''B'', 1)] (Finite 0) PosInf
     [(''A'', ''B'', Finite 1), (''B'', ''C'', Finite 2)] ''A'' = 2"
  by (simp add: chain_log_records totalTransmissions_records directTransmissions_records
       count_source_def setdefault_def add_at_def stated_total_def score_of_def counted_def
       strip_def lstrip_def rstrip_def isspace_def less_xreal_def)

section \<open>The rank matcher\<close>

text \<open>
  What the matcher does on every input: it writes the lines of the identifiers up to the
  first one whose score the format cannot write, and ends with that exception.
\<close>

lemma matchInfectorCounts_stops:
  assumes "\<And>line. line \<in> set before \<Longrightarrow>
             (case map_of infectionsDict (strip line) of
                Some x \<Rightarrow> if metric = 2 then \<exists>y. format_f x = Inr y else \<exists>n. format_d x = Inr n
              | None \<Rightarrow> True)"
    and "matchInfectorCounts_body infectionsDict metric out line = Inl e"
  shows "\<exists>written. length written = length before \<and>
           matchInfectorCounts infectionsDict (before @ line # rest) outfile metric =
             (outfile @ written, Some e)"
  using assms(1)
proof (induction before arbitrary: outfile)
  case Nil
  have "matchInfectorCounts_body infectionsDict metric outfile line = Inl e"
    using assms(2)
    by (auto simp: matchInfectorCounts_body_def Let_def split: option.splits if_splits sum.splits)
  then show ?case by simp
next
  case (Cons l before)
  from Cons.prems [of l] obtain o1 where
    o1: "matchInfectorCounts_body infectionsDict metric outfile l = Inr (outfile @ [o1])"
    by (auto simp: matchInfectorCounts_body_def Let_def split: option.splits if_splits)
  from Cons.IH [of "outfile @ [o1]"] Cons.prems obtain written where
    "length written = length before"
    "matchInfectorCounts infectionsDict (before @ line # rest) (outfile @ [o1]) metric =
       ((outfile @ [o1]) @ written, Some e)"
    by auto
  then show ?case
    by (intro exI [of _ "o1 # written"]) (simp add: o1)
qed

lemma matchInfectorCounts_counts:
  assumes "metric \<noteq> 2"
  shows "matchInfectorCounts (map (\<lambda>(k, c). (k, PyInt c)) scores) inputOrder outfile metric =
     (outfile @ map (\<lambda>line. case map_of scores (strip line) of
                              Some c \<Rightarrow> IntLine (strip line) c
                            | None \<Rightarrow> ZeroLine (strip line)) inputOrder, None)"
proof (induction inputOrder arbitrary: outfile)
  case Nil
  then show ?case by simp
next
  case (Cons line inputOrder)
  have "map_of (map (\<lambda>(k, c). (k, PyInt c)) scores) p = map_option PyInt (map_of scores p)" for p
    by (simp add: map_of_map)
  then have "matchInfectorCounts_body (map (\<lambda>(k, c). (k, PyInt c)) scores) metric outfile line =
      Inr (outfile @ [case map_of scores (strip line) of
                        Some c \<Rightarrow> IntLine (strip line) c
                      | None \<Rightarrow> ZeroLine (strip line)])"
    using assms by (simp add: matchInfectorCounts_body_def format_d_def Let_def split: option.splits)
  then show ?case
    by (simp add: Cons.IH)
qed

lemma matchInfectorCounts_slopes:
  "matchInfectorCounts (map (\<lambda>(k, f). (k, PyFloat f)) scores) inputOrder outfile 2 =
     (outfile @ map (\<lambda>line. case map_of scores (strip line) of
                              Some f \<Rightarrow> FloatLine (strip line) (PyFloat f)
                            | None \<Rightarrow> ZeroLine (strip line)) inputOrder, None)"
proof (induction inputOrder arbitrary: outfile)
  case Nil
  then show ?case by simp
next
  case (Cons line inputOrder)
  have "map_of (map (\<lambda>(k, f). (k, PyFloat f)) scores) p = map_option PyFloat (map_of scores p)" for p
    by (simp add: map_of_map)
  then have "matchInfectorCounts_body (map (\<lambda>(k, f). (k, PyFloat f)) scores) 2 outfile line =
      Inr (outfile @ [case map_of scores (strip line) of
                        Some f \<Rightarrow> FloatLine (strip line) (PyFloat f)
                      | None \<Rightarrow> ZeroLine (strip line)])"
    by (simp add: matchInfectorCounts_body_def format_f_def Let_def split: option.splits)
  then show ?case
    by (simp add: Cons.IH)
qed




section \<open>Metrics 5 and 6: contact lines whose first field is \<open>None\<close>\<close>

text \<open>
  Claim C10. In \<open>numContacts\<close> and in \<open>numContactInfect\<close>, a contact line that is no
  header and whose trimmed first field is \<open>'None'\<close> leaves the dictionary as it was:
  no entry is created and none is changed, so the loop over a log gives the same result
  with the line and without it.
\<close>

theorem contact_line_None_skipped:
  assumes "take 4 line \<noteq> ''NODE''"
    and "unpack5 line = Inr (u, v, t, w, x)"
    and "strip u = ''None''"
  shows "numContacts_body numberContacts line = Inr numberContacts \<and>
         numContactInfect_body numInfected numberContacts line = Inr numberContacts \<and>
         for_each numContacts_body numberContacts (before @ line # rest) =
           for_each numContacts_body numberContacts (before @ rest) \<and>
         for_each (numContactInfect_body numInfected) numberContacts (before @ line # rest) =
           for_each (numContactInfect_body numInfected) numberContacts (before @ rest)"
proof -
  have a: "numContacts_body d line = Inr d" for d
    using assms by (simp add: numContacts_body_def)
  have b: "numContactInfect_body numInfected d line = Inr d" for d
    using assms by (simp add: numContactInfect_body_def)
  show ?thesis
    by (simp add: a b for_each_append split: sum.splits)
qed

theorem contact_line_None_skipped_witness:
  "numContacts_body [(''A'', 1)] (join_sep TAB_CHAR [''None'', ''A'', ''B'', ''.'', ''u'']) = Inr [(''A'', 1)] \<and>
   numContactInfect_body [(''A'', 3)] [(''A'', 1)] (join_sep TAB_CHAR [''None'', ''A'', ''B'', ''.'', ''u''])
     = Inr [(''A'', 1)]"
proof -
  let ?line = "join_sep TAB_CHAR [''None'', ''A'', ''B'', ''.'', ''u'']"
  have 1: "take 4 ?line \<noteq> ''NODE''" by simp
  have 2: "unpack5 ?line = Inr (''None'', ''A'', ''B'', ''.'', ''u'')" by (simp add: unpack5_def)
  have 3: "strip ''None'' = ''None''" by (simp add: strip_def lstrip_def rstrip_def isspace_def)
  from contact_line_None_skipped [OF 1 2 3, of "[(''A'', 1)]" "[(''A'', 3)]"]
  show ?thesis by simp
qed

section \<open>The dispatcher and a log that was not supplied\<close>

text \<open>
  Claim C6. A selector with a fractional part, such as 2.5 or 3.2, selects metric 2 or 3
  with a parameter. For such a selector and a transmission log that was not supplied,
  \<open>pairCounts\<close> does not raise its error about the missing argument: the membership
  test \<open>metric in [1, 2, 3, 4, 6]\<close> fails, the metric is started, and the error is the
  \<open>FileNotFoundError\<close> of \<open>open('')\<close>.
\<close>

theorem pairCounts_fractional_selector:
  "pairCounts tofloat fit digits NotSupplied contactNet lowerBound upperBound (5 / 2) =
     Inl FileNotFoundError \<and>
   pairCounts tofloat fit digits NotSupplied contactNet lowerBound upperBound (16 / 5) =
     Inl FileNotFoundError"
  by (simp add: pairCounts_def py_int_def slopes_def counts_def bestfitGraph_def
       indirectTransmissions_def directAdjacency_def opengzip_def)

text \<open>For the selectors 1 to 6 themselves the check does what it is meant to do.\<close>

lemma pairCounts_missing_transmissionHist:
  "metric \<in> {1, 2, 3, 4, 6} \<Longrightarrow>
   pairCounts tofloat fit digits NotSupplied contactNet lowerBound upperBound metric =
     Inl (MissingInput ''TRANSMISSIONHIST'')"
  by (auto simp: pairCounts_def)

lemma pairCounts_missing_contactNet:
  "metric \<in> {5, 6} \<Longrightarrow> transmissionHist \<noteq> NotSupplied \<or> metric = 5 \<Longrightarrow>
   pairCounts tofloat fit digits transmissionHist NotSupplied lowerBound upperBound metric =
     Inl (MissingInput ''CONTACTNET'')"
  by (auto simp: pairCounts_def)

section \<open>The correlation evaluator on an empty sequence\<close>

text \<open>
  The evaluator does not fail on an empty sequence of scores when \<open>kendalltau\<close> returns
  \<open>(nan, nan)\<close> there: it writes that pair.
\<close>

theorem calculateTauB_empty_counterexample:
  "calculateTauB kendalltau_on_empty [] [] False = Inr [(NaN, NaN)]"
  by (simp add: calculateTauB_def kendalltau_on_empty_def)

text \<open>
  Claim C4, as amended. \<open>calculateTauB\<close> has no check of its own for an empty sequence of
  scores: it passes two empty sequences to \<open>kendalltau\<close> and writes the pair that comes
  back; it fails only when \<open>kendalltau\<close> does.
\<close>

theorem calculateTauB_empty:
  "calculateTauB kendalltau [] outfile reverse =
     (case kendalltau [] [] of Inl e \<Rightarrow> Inl e | Inr r \<Rightarrow> Inr (outfile @ [r]))"
  by (cases reverse) (auto simp: calculateTauB_def split: sum.splits)

section \<open>Lemmas about metric 3\<close>

lemma direct_body_parse:
  "direct_body tofloat lo hi d line =
     (case parse_transmission tofloat line of
        Inl e \<Rightarrow> Inl e
      | Inr r \<Rightarrow> Inr (direct_step lo hi r d))"
  by (auto simp: direct_body_def parse_transmission_def direct_step_def Let_def
           split: sum.splits option.splits prod.splits)

lemma directAdjacency_records:
  "directAdjacency tofloat th lo hi =
     (case transmission_records tofloat th of
        Inl e \<Rightarrow> Inl e
      | Inr rs \<Rightarrow> Inr (fold (direct_step lo hi) rs []))"
proof (cases "opengzip th")
  case (Inl e)
  then show ?thesis
    by (simp add: directAdjacency_def transmission_records_def)
next
  case (Inr lines)
  have "for_each (direct_body tofloat lo hi) [] lines =
        (case parse_all (parse_transmission tofloat) lines of
           Inl e \<Rightarrow> Inl e | Inr rs \<Rightarrow> Inr (fold (direct_step lo hi) rs []))"
    by (rule for_each_fusion) (simp add: direct_body_parse)
  with Inr show ?thesis
    by (simp add: directAdjacency_def transmission_records_def)
qed

lemma map_of_extend_at:
  "map_of (extend_at k xs d) p = (if p = k then map_option (\<lambda>l. l @ xs) (map_of d k) else map_of d p)"
  by (simp add: extend_at_def update_conv' split: option.splits)

lemma keys_extend_at: "fst ` set (extend_at k xs d) = fst ` set d"
  by (auto simp: extend_at_def dom_update split: option.splits dest: map_of_SomeD intro: rev_image_eqI)

lemma distinct_extend_at: "distinct (map fst d) \<Longrightarrow> distinct (map fst (extend_at k xs d))"
  by (simp add: extend_at_def distinct_update split: option.splits)

lemma set_update_subset: "set (AList.update k v d) \<subseteq> insert (k, v) (set d)"
  by (induction d) auto

lemma targets_known_setdefault:
  "targets_known direct d \<Longrightarrow> targets_known direct (setdefault k [] d)"
  by (auto simp: targets_known_def setdefault_def dest!: subsetD [OF set_update_subset])

lemma targets_known_mono:
  "targets_known direct d \<Longrightarrow> fst ` set direct \<subseteq> fst ` set direct' \<Longrightarrow> targets_known direct' d"
  by (fastforce simp: targets_known_def)

lemma targets_known_extend_at:
  assumes "targets_known direct d" "set xs \<subseteq> fst ` set direct"
  shows "targets_known direct (extend_at k xs d)"
proof (cases "map_of d k")
  case None
  then show ?thesis using assms by (simp add: extend_at_def)
next
  case (Some l)
  then have "(k, l) \<in> set d" by (rule map_of_SomeD)
  then have "set l \<subseteq> fst ` set direct"
    using assms(1) by (fastforce simp: targets_known_def)
  then show ?thesis
    using assms Some
    by (auto simp: targets_known_def extend_at_def dest!: subsetD [OF set_update_subset])
qed

lemma direct_step_invariant:
  assumes "distinct (map fst d)" "targets_known d d"
  shows "distinct (map fst (direct_step lo hi r d)) \<and> targets_known (direct_step lo hi r d) (direct_step lo hi r d)"
proof (cases r)
  case (fields u0 v0 ft)
  let ?u = "strip u0" and ?v = "strip v0"
  let ?d1 = "setdefault ?v [] (setdefault ?u [] d)"
  let ?d2 = "extend_at ?u [?v] ?d1"
  have k1: "fst ` set ?d1 = insert ?v (insert ?u (fst ` set d))"
    by (simp add: keys_setdefault)
  have k2: "fst ` set ?d2 = fst ` set ?d1"
    by (simp add: keys_extend_at)
  have "targets_known d ?d1"
    using assms(2) by (simp add: targets_known_setdefault)
  then have "targets_known ?d1 ?d1"
    by (rule targets_known_mono) (auto simp: k1)
  then have "targets_known ?d1 ?d2"
    by (rule targets_known_extend_at) (simp add: k1)
  then have "targets_known ?d2 ?d2"
    by (rule targets_known_mono) (simp add: k2)
  moreover have "distinct (map fst ?d2)"
    using assms(1) by (simp add: distinct_extend_at distinct_setdefault)
  ultimately show ?thesis
    using assms by (simp add: fields direct_step_def)
qed

lemma fold_direct_step_invariant:
  "distinct (map fst d) \<Longrightarrow> targets_known d d \<Longrightarrow>
   distinct (map fst (fold (direct_step lo hi) rs d)) \<and>
   targets_known (fold (direct_step lo hi) rs d) (fold (direct_step lo hi) rs d)"
  by (induction rs arbitrary: d) (simp_all add: direct_step_invariant)

lemma directAdjacency_invariant:
  assumes "directAdjacency tofloat th lo hi = Inr direct"
  shows "distinct (map fst direct) \<and> targets_known direct direct"
proof -
  from assms obtain rs where "direct = fold (direct_step lo hi) rs []"
    by (auto simp: directAdjacency_records split: sum.splits)
  then show ?thesis
    using fold_direct_step_invariant [of "[]" lo hi rs] by (simp add: targets_known_def)
qed

lemma extend_at_empty: "extend_at k [] d = d"
  by (simp add: extend_at_def update_triv split: option.splits)

lemma extend_at_twice: "extend_at k ys (extend_at k xs d) = extend_at k (xs @ ys) d"
  by (simp add: extend_at_def update_conv' split: option.splits)

lemma for_each_extend_body:
  "set vals \<subseteq> fst ` set direct \<Longrightarrow>
   for_each (extend_body direct key) td vals =
     Inr (extend_at key (concat (map (out_list direct) vals)) td)"
proof (induction vals arbitrary: td)
  case Nil
  then show ?case by (simp add: extend_at_empty)
next
  case (Cons v vals)
  from Cons.prems have "v \<in> fst ` set direct" by simp
  then obtain ds where ds: "map_of direct v = Some ds"
    by (metis map_of_eq_None_iff not_Some_eq)
  from Cons.prems have "set vals \<subseteq> fst ` set direct" by simp
  from Cons.IH [OF this] show ?case
    by (simp add: extend_body_def ds out_list_def extend_at_twice)
qed

lemma update_fresh: "k \<notin> fst ` set acc \<Longrightarrow> AList.update k x acc = acc @ [(k, x)]"
  by (induction acc) auto

lemma update_last_entry: "k \<notin> fst ` set acc \<Longrightarrow> AList.update k x (acc @ [(k, x')]) = acc @ [(k, x)]"
  by (induction acc) auto

lemma for_each_frontier_body:
  "distinct (map fst (acc @ ys)) \<Longrightarrow> targets_known direct ys \<Longrightarrow>
   for_each (frontier_body direct) acc ys = Inr (acc @ map (expand direct) ys)"
proof (induction ys arbitrary: acc)
  case Nil
  then show ?case by simp
next
  case (Cons y ys)
  obtain k vs where y: "y = (k, vs)" by (cases y)
  from Cons.prems(1) y have k: "k \<notin> fst ` set acc" by auto
  then have none: "map_of acc k = None" by (simp add: map_of_eq_None_iff)
  from Cons.prems(2) y have vs: "set vs \<subseteq> fst ` set direct" and rest: "targets_known direct ys"
    by (auto simp: targets_known_def)
  have look: "map_of (acc @ [(k, [])]) k = Some []"
    using none by (simp add: map_add_def)
  have "frontier_body direct acc y = Inr (acc @ [expand direct y])"
    using k none look
    by (simp add: frontier_body_def y for_each_extend_body [OF vs] setdefault_def update_fresh
             extend_at_def update_last_entry expand_def)
  moreover have "distinct (map fst ((acc @ [expand direct y]) @ ys))"
    using Cons.prems(1) by (simp add: expand_def)
  ultimately show ?case
    using Cons.IH [OF _ rest, of "acc @ [expand direct y]"] by simp
qed




lemma chain_log_adjacency:
  "directAdjacency float_of_literal chain_log (Finite 0) PosInf =
     Inr [(''A'', [''B'']), (''B'', [''C'']), (''C'', [])]"
  by (simp add: directAdjacency_records chain_log_records direct_step_def setdefault_def
       extend_at_def strip_def lstrip_def rstrip_def isspace_def less_xreal_def)



section \<open>Lemmas about metric 2\<close>

lemma timesInfected_body_parse:
  "timesInfected_body tofloat lo hi isSet state line =
     (case parse_transmission tofloat line of
        Inl e \<Rightarrow> Inl e
      | Inr r \<Rightarrow> Inr (times_step lo hi isSet r state))"
  by (auto simp: timesInfected_body_def parse_transmission_def times_step_def Let_def
           split: sum.splits option.splits prod.splits)

lemma steps_of_steps_list: "tms \<noteq> [] \<Longrightarrow> steps_of lo latest tms = Inr (steps_list lo latest tms)"
  by (cases tms) (simp_all add: steps_of_def steps_list_def)

lemma last_steps_list:
  assumes "tms \<noteq> []"
  shows "last (steps_list lo latest tms) = (last tms, latest, int (length tms))"
proof -
  from assms obtain n where n: "length tms = Suc n"
    by (cases tms) auto
  have "last tms = tms ! n"
    using assms n by (simp add: last_conv_nth)
  then show ?thesis
    by (simp add: steps_list_def n)
qed

lemma map_of_times_step:
  "map_of (fst (times_step lo hi isSet r state)) p =
     (if counted lo hi r \<and> strip (fst r) = p
      then Some ((case map_of (fst state) p of None \<Rightarrow> [] | Some l \<Rightarrow> l) @ [snd (snd r)])
      else map_of (fst state) p)"
  by (cases r) (auto simp: times_step_def counted_def map_of_extend_at map_of_setdefault not_le
                     split: option.splits)

lemma snd_times_step:
  "snd (times_step lo hi isSet r state) =
     (if counted lo hi r \<and> \<not> isSet then later_time (snd (snd r)) (snd state) else snd state)"
  by (cases r) (auto simp: times_step_def counted_def later_time_def)

lemma distinct_times_step:
  "distinct (map fst (fst state)) \<Longrightarrow> distinct (map fst (fst (times_step lo hi isSet r state)))"
  by (cases r) (auto simp: times_step_def distinct_extend_at distinct_setdefault)

lemma map_of_fold_times_step:
  "map_of (fst (fold (times_step lo hi isSet) rs state)) p =
     (case map_of (fst state) p of
        None \<Rightarrow> if times_of lo hi rs p = [] then None else Some (times_of lo hi rs p)
      | Some l \<Rightarrow> Some (l @ times_of lo hi rs p))"
proof (induction rs arbitrary: state)
  case Nil
  then show ?case by (simp add: times_of_def split: option.splits)
next
  case (Cons r rs)
  show ?case
    unfolding fold_simps Cons.IH map_of_times_step
    by (simp add: times_of_def split: option.splits)
qed

lemma numbers_simps:
  "numbers [] = []"
  "numbers (NaN # ts) = numbers ts"
  "numbers (Num x # ts) = x # numbers ts"
  by (simp_all add: numbers_def)

lemma fold_later_time:
  "fold later_time ts (Num a) = Num (Max (set (a # numbers ts)))"
proof (induction ts arbitrary: a)
  case Nil
  then show ?case by (simp add: numbers_simps)
next
  case (Cons t ts)
  show ?case
  proof (cases t)
    case NaN
    then show ?thesis
      using Cons.IH [of a] by (simp add: later_time_def numbers_simps)
  next
    case (Num x)
    have "later_time t (Num a) = Num (max a x)"
      by (auto simp: Num later_time_def max_def)
    moreover have "Max (set (max a x # numbers ts)) = Max (set (a # numbers (t # ts)))"
      unfolding Num numbers_simps Max.set_eq_fold by (simp add: max.commute)
    ultimately show ?thesis
      using Cons.IH [of "max a x"] by simp
  qed
qed

lemma snd_fold_times_step:
  "snd (fold (times_step lo hi isSet) rs state) =
     (if isSet then snd state else fold later_time (counted_times lo hi rs) (snd state))"
proof (induction rs arbitrary: state)
  case Nil
  then show ?case by (simp add: counted_times_def)
next
  case (Cons r rs)
  show ?case
    unfolding fold_simps Cons.IH snd_times_step
    by (simp add: counted_times_def)
qed

lemma py_eq_PosInf: "py_eq x PosInf = (x = PosInf)"
  by (cases x) auto

lemma distinct_fold_times_step:
  "distinct (map fst (fst state)) \<Longrightarrow>
   distinct (map fst (fst (fold (times_step lo hi isSet) rs state)))"
  by (induction rs arbitrary: state) (simp_all add: distinct_times_step)

lemma for_each_show_steps:
  "distinct (map fst acc @ map fst ys) \<Longrightarrow> [] \<notin> snd ` set ys \<Longrightarrow>
   for_each (slopes_body show_steps lo latest n) acc ys =
     Inr (acc @ map (\<lambda>e. (fst e, steps_list lo latest (snd e))) ys)"
proof (induction ys arbitrary: acc)
  case Nil
  then show ?case by simp
next
  case (Cons y ys)
  obtain k tms where y: "y = (k, tms)" by (cases y)
  from Cons.prems y have k: "k \<notin> fst ` set acc" and ne: "tms \<noteq> []" and rest: "[] \<notin> snd ` set ys"
    by auto
  have step: "slopes_body show_steps lo latest n acc y = Inr (acc @ [(k, steps_list lo latest tms)])"
    using k by (simp add: slopes_body_def y steps_of_steps_list [OF ne] show_steps_def update_fresh)
  have "distinct (map fst (acc @ [(k, steps_list lo latest tms)]) @ map fst ys)"
    using Cons.prems(1) y by simp
  from Cons.IH [OF this rest] show ?case
    by (simp add: step [unfolded y] y)
qed

lemma transmission_records_lines:
  assumes "transmission_records tofloat th = Inr rs"
  shows "\<exists>lines. opengzip th = Inr lines \<and> parse_all (parse_transmission tofloat) lines = Inr rs"
  using assms by (auto simp: transmission_records_def split: sum.splits)

lemma bestfitGraph_show_steps:
  assumes "transmission_records tofloat th = Inr rs"
  shows "\<exists>d. bestfitGraph tofloat show_steps th lo hi n = Inr d \<and>
           distinct (map fst d) \<and>
           (\<forall>p. map_of d p =
              (if times_of lo hi rs p = [] then None
               else Some (steps_list lo
                            (if hi = PosInf
                             then Num (Max (set (Fin (- 1) # numbers (counted_times lo hi rs)))) else hi)
                            (times_of lo hi rs p))))"
proof -
  from transmission_records_lines [OF assms] obtain lines
    where lines: "opengzip th = Inr lines" "parse_all (parse_transmission tofloat) lines = Inr rs"
    by blast
  let ?l0 = "if hi = PosInf then Finite (- 1) else hi"
  let ?st = "fold (times_step lo hi (hi \<noteq> PosInf)) rs ([], ?l0)"
  let ?latest = "if hi = PosInf
                 then Num (Max (set (Fin (- 1) # numbers (counted_times lo hi rs)))) else hi"
  let ?d = "map (\<lambda>e. (fst e, steps_list lo ?latest (snd e))) (fst ?st)"
  have loop: "for_each (timesInfected_body tofloat lo hi (hi \<noteq> PosInf)) ([], ?l0) lines = Inr ?st"
    using for_each_fusion [where xs = lines and body = "timesInfected_body tofloat lo hi (hi \<noteq> PosInf)"
        and parse = "parse_transmission tofloat" and step = "times_step lo hi (hi \<noteq> PosInf)"
        and s = "([], ?l0)"]
    by (simp add: timesInfected_body_parse lines(2))
  have latest: "snd ?st = ?latest"
    by (simp add: snd_fold_times_step fold_later_time)
  have dist: "distinct (map fst (fst ?st))"
    by (rule distinct_fold_times_step) simp
  have look: "map_of (fst ?st) p =
       (if times_of lo hi rs p = [] then None else Some (times_of lo hi rs p))" for p
    by (simp add: map_of_fold_times_step)
  have nonempty: "[] \<notin> snd ` set (fst ?st)"
  proof
    assume "[] \<in> snd ` set (fst ?st)"
    then obtain k where "(k, []) \<in> set (fst ?st)" by force
    with dist have "map_of (fst ?st) k = Some []" by simp
    then show False by (simp add: look split: if_splits)
  qed
  have "for_each (slopes_body show_steps lo ?latest m) [] (fst ?st) = Inr ([] @ ?d)" for m
    by (rule for_each_show_steps) (simp_all add: dist nonempty)
  then have res: "bestfitGraph tofloat show_steps th lo hi n = Inr ?d"
    by (simp add: bestfitGraph_def py_eq_PosInf lines(1) loop Let_def latest del: fold_simps)
  have keys: "map fst ?d = map fst (fst ?st)"
    by (simp add: comp_def)
  have "?d = map (\<lambda>(k, tms). (k, steps_list lo ?latest tms)) (fst ?st)"
    by (simp add: case_prod_beta)
  then have "map_of ?d p = map_option (steps_list lo ?latest) (map_of (fst ?st) p)" for p
    by (simp only: map_of_map comp_def)
  then have "map_of ?d p =
       (if times_of lo hi rs p = [] then None else Some (steps_list lo ?latest (times_of lo hi rs p)))" for p
    by (simp add: look)
  with res keys dist show ?thesis
    by (metis (no_types, lifting))
qed

text \<open>
  Claim C9, as amended. Whenever the log reads as records, \<open>bestfitGraph\<close> has an entry
  exactly for the sources, other than \<open>'None'\<close>, of the records that the bounds test
  does not skip, and the last step of every such individual starts at the time of its
  last counted record in the order of the log. With an explicit upper bound (any bound
  that is not positive infinity) the step ends at that bound. With no upper bound it
  ends at the greatest time that is not \<open>nan\<close> among the counted records (the records
  that the bounds test does not skip and whose source is not \<open>'None'\<close>), as long as
  there is such a time and it is not below the value \<open>-1\<close> from which the code starts
  its search.
\<close>

theorem bestfitGraph_final_step:
  assumes "transmission_records tofloat transmissionHist = Inr rs"
  shows "\<exists>d. bestfitGraph tofloat show_steps transmissionHist lowerBound upperBound numPointsPerStep = Inr d \<and>
           (\<forall>p. (map_of d p = None) = (times_of lowerBound upperBound rs p = [])) \<and>
           (\<forall>p steps. map_of d p = Some steps \<longrightarrow>
              fst (last steps) = last (times_of lowerBound upperBound rs p) \<and>
              snd (snd (last steps)) = int (length (times_of lowerBound upperBound rs p)) \<and>
              (upperBound \<noteq> PosInf \<longrightarrow> fst (snd (last steps)) = upperBound) \<and>
              (upperBound = PosInf \<and> numbers (counted_times lowerBound upperBound rs) \<noteq> [] \<and>
               Fin (- 1) \<le> Max (set (numbers (counted_times lowerBound upperBound rs))) \<longrightarrow>
                 fst (snd (last steps)) = Num (Max (set (numbers (counted_times lowerBound upperBound rs))))))"
proof -
  let ?ct = "numbers (counted_times lowerBound upperBound rs)"
  let ?latest = "if upperBound = PosInf then Num (Max (set (Fin (- 1) # ?ct))) else upperBound"
  from bestfitGraph_show_steps [OF assms, of lowerBound upperBound numPointsPerStep]
  obtain d where d: "bestfitGraph tofloat show_steps transmissionHist lowerBound upperBound numPointsPerStep = Inr d"
    and look: "\<And>p. map_of d p =
              (if times_of lowerBound upperBound rs p = [] then None
               else Some (steps_list lowerBound ?latest (times_of lowerBound upperBound rs p)))"
    by blast
  have dom: "(map_of d p = None) = (times_of lowerBound upperBound rs p = [])" for p
    by (simp add: look)
  have fin: "fst (last steps) = last (times_of lowerBound upperBound rs p) \<and>
              snd (snd (last steps)) = int (length (times_of lowerBound upperBound rs p)) \<and>
              (upperBound \<noteq> PosInf \<longrightarrow> fst (snd (last steps)) = upperBound) \<and>
              (upperBound = PosInf \<and> ?ct \<noteq> [] \<and> Fin (- 1) \<le> Max (set ?ct) \<longrightarrow>
                 fst (snd (last steps)) = Num (Max (set ?ct)))"
    if "map_of d p = Some steps" for p steps
  proof -
    from that have ne: "times_of lowerBound upperBound rs p \<noteq> []"
      and steps: "steps = steps_list lowerBound ?latest (times_of lowerBound upperBound rs p)"
      by (auto simp: look split: if_splits)
    have mx: "Max (set (Fin (- 1) # ?ct)) = Max (set ?ct)"
      if "?ct \<noteq> []" "Fin (- 1) \<le> Max (set ?ct)"
      using that by (simp add: max_def)
    show ?thesis
    proof (cases "upperBound = PosInf")
      case True
      then show ?thesis
        using mx ne by (auto simp: steps last_steps_list)
    next
      case False
      then show ?thesis
        using ne by (simp add: steps last_steps_list)
    qed
  qed
  from d dom fin show ?thesis by blast
qed

lemma trend_log_records:
  "transmission_records float_of_literal trend_log =
     Inr [(''A'', ''B'', Finite 1), (''A'', ''C'', Finite 5), (''B'', ''C'', Finite 7), (''B'', ''D'', NaN)]"
  by (simp add: trend_log_def sample_defs)

lemmas trend_eval = times_of_def counted_times_def counted_def numbers_simps strip_def lstrip_def
  rstrip_def isspace_def less_xreal_def

theorem bestfitGraph_final_step_witness:
  "(\<exists>d steps. bestfitGraph float_of_literal show_steps trend_log (Finite 0) PosInf 0 = Inr d \<and>
       map_of d ''A'' = Some steps \<and> last steps = (Finite 5, Finite 7, 2)) \<and>
   (\<exists>d steps. bestfitGraph float_of_literal show_steps trend_log (Finite 0) (Finite 9) 0 = Inr d \<and>
       map_of d ''A'' = Some steps \<and> last steps = (Finite 5, Finite 9, 2))"
proof
  let ?rs = "[(''A'', ''B'', Finite 1), (''A'', ''C'', Finite 5), (''B'', ''C'', Finite 7),
              (''B'', ''D'', NaN)]"
  have t1: "times_of (Finite 0) PosInf ?rs ''A'' = [Finite 1, Finite 5]"
    by (simp add: trend_eval)
  have c0: "numbers (counted_times (Finite 0) PosInf ?rs) = [Fin 1, Fin 5, Fin 7]"
    by (simp add: trend_eval)
  have c1: "Max (set [Fin 1, Fin 5, Fin 7]) = Fin 7"
    by (simp add: max_def)
  from bestfitGraph_final_step [OF trend_log_records, of "Finite 0" PosInf 0]
  obtain d where d: "bestfitGraph float_of_literal show_steps trend_log (Finite 0) PosInf 0 = Inr d"
    and dom: "\<And>p. (map_of d p = None) = (times_of (Finite 0) PosInf ?rs p = [])"
    and fin: "\<And>p steps. map_of d p = Some steps \<Longrightarrow>
              fst (last steps) = last (times_of (Finite 0) PosInf ?rs p) \<and>
              snd (snd (last steps)) = int (length (times_of (Finite 0) PosInf ?rs p)) \<and>
              (PosInf = PosInf \<and> numbers (counted_times (Finite 0) PosInf ?rs) \<noteq> [] \<and>
               Fin (- 1) \<le> Max (set (numbers (counted_times (Finite 0) PosInf ?rs))) \<longrightarrow>
                 fst (snd (last steps)) = Num (Max (set (numbers (counted_times (Finite 0) PosInf ?rs)))))"
    by blast
  from dom [of "''A''"] obtain steps where s: "map_of d ''A'' = Some steps"
    by (auto simp: t1)
  from fin [OF s] have "last steps = (Finite 5, Finite 7, 2)"
    unfolding c0 c1 t1 by (simp add: prod_eq_iff)
  with d s show "\<exists>d steps. bestfitGraph float_of_literal show_steps trend_log (Finite 0) PosInf 0 = Inr d \<and>
       map_of d ''A'' = Some steps \<and> last steps = (Finite 5, Finite 7, 2)"
    by blast
next
  let ?rs = "[(''A'', ''B'', Finite 1), (''A'', ''C'', Finite 5), (''B'', ''C'', Finite 7),
              (''B'', ''D'', NaN)]"
  have t1: "times_of (Finite 0) (Finite 9) ?rs ''A'' = [Finite 1, Finite 5]"
    by (simp add: trend_eval)
  from bestfitGraph_final_step [OF trend_log_records, of "Finite 0" "Finite 9" 0]
  obtain d where d: "bestfitGraph float_of_literal show_steps trend_log (Finite 0) (Finite 9) 0 = Inr d"
    and dom: "\<And>p. (map_of d p = None) = (times_of (Finite 0) (Finite 9) ?rs p = [])"
    and fin: "\<And>p steps. map_of d p = Some steps \<Longrightarrow>
              fst (last steps) = last (times_of (Finite 0) (Finite 9) ?rs p) \<and>
              snd (snd (last steps)) = int (length (times_of (Finite 0) (Finite 9) ?rs p)) \<and>
              (Finite 9 \<noteq> PosInf \<longrightarrow> fst (snd (last steps)) = Finite 9)"
    by blast
  from dom [of "''A''"] obtain steps where s: "map_of d ''A'' = Some steps"
    by (auto simp: t1)
  from fin [OF s] have "last steps = (Finite 5, Finite 9, 2)"
    by (simp add: t1 prod_eq_iff)
  with d s show "\<exists>d steps. bestfitGraph float_of_literal show_steps trend_log (Finite 0) (Finite 9) 0 = Inr d \<and>
       map_of d ''A'' = Some steps \<and> last steps = (Finite 5, Finite 9, 2)"
    by blast
qed

lemma seed_late_log_records:
  "transmission_records float_of_literal seed_late_log =
     Inr [(''A'', ''B'', Finite 1), (''None'', ''C'', Finite 5)]"
  by (simp add: seed_late_log_def sample_defs)

lemmas bestfit_eval = bestfitGraph_def DEF_POINTS_PER_STEP_def timesInfected_body_def slopes_body_def
  steps_of_def show_steps_def setdefault_def extend_at_def less_xreal_def

text \<open>
  A record without a source does not count for the latest time: on the log with
  \<open>A \<rightarrow> B\<close> at time 1 and \<open>None \<rightarrow> C\<close> at time 5 and no upper bound, the last step
  of \<open>A\<close> ends at 1, and the greatest time of the log within the bounds is 5.
\<close>

theorem bestfitGraph_final_step_counterexample:
  "transmission_records float_of_literal seed_late_log =
     Inr [(''A'', ''B'', Finite 1), (''None'', ''C'', Finite 5)] \<and>
   bestfitGraph float_of_literal show_steps seed_late_log (Finite 0) PosInf 0 =
     Inr [(''A'', [(Finite 0, Finite 1, 0), (Finite 1, Finite 1, 1)])] \<and>
   fst (snd (last [(Finite 0, Finite 1, 0), (Finite 1, Finite 1, 1 :: int)])) \<noteq>
     Num (Max (set (numbers (map (\<lambda>r. snd (snd r))
       (filter (\<lambda>r. \<not> py_gt (Finite 0) (snd (snd r)) \<and> \<not> py_gt (snd (snd r)) PosInf)
          [(''A'', ''B'', Finite 1), (''None'', ''C'', Finite 5)])))))"
  by (simp add: seed_late_log_records numbers_simps less_xreal_def)
     (simp add: seed_late_log_def sample_defs bestfit_eval)

text \<open>
  When every counted time is below \<open>-1\<close>, the last step ends at \<open>-1\<close>: the search for
  the latest time starts from that value.
\<close>

lemma bestfitGraph_times_below_minus_one:
  "bestfitGraph float_of_literal show_steps negative_log (Finite (- 10)) PosInf 0 =
     Inr [(''A'', [(Finite (- 10), Finite (- 5), 0), (Finite (- 5), Finite (- 1), 1)])]"
  by (simp add: negative_log_def sample_defs bestfit_eval)

text \<open>
  A time that is \<open>nan\<close> is kept among the times of its source and never becomes the
  latest time: on the log with \<open>A \<rightarrow> B\<close> at time 1 and \<open>A \<rightarrow> C\<close> at time \<open>nan\<close> and no
  upper bound, the last step of \<open>A\<close> runs from \<open>nan\<close> to 1 with the value 2.
\<close>

lemma bestfitGraph_nan_time:
  "bestfitGraph float_of_literal show_steps
     (Content (log_text [[''A'', ''B'', ''1''], [''A'', ''C'', ''nan'']])) (Finite 0) PosInf 0 =
     Inr [(''A'', [(Finite 0, Finite 1, 0), (Finite 1, NaN, 1), (NaN, Finite 1, 2)])]"
  by (simp add: sample_defs bestfit_eval)

section \<open>The keys of the returned dictionaries\<close>

lemma parse_all_set:
  "parse_all parse xs = Inr rs \<Longrightarrow> r \<in> set rs \<Longrightarrow> \<exists>x \<in> set xs. parse x = Inr r"
  by (induction xs arbitrary: rs) (auto split: sum.splits)

lemma records_source_nonempty:
  assumes "transmission_records tofloat th = Inr rs" "r \<in> set rs"
  shows "strip (fst r) \<noteq> []"
proof -
  from transmission_records_lines [OF assms(1)] obtain lines
    where lines: "opengzip th = Inr lines" "parse_all (parse_transmission tofloat) lines = Inr rs"
    by blast
  from parse_all_set [OF lines(2) assms(2)] obtain l
    where l: "l \<in> set lines" "parse_transmission tofloat l = Inr r"
    by blast
  from opengzip_stripped [OF lines(1) l(1)] obtain x where x: "l = strip x"
    by blast
  from l(2) obtain u v t where "unpack3 l = Inr (u, v, t)" "fst r = u"
    by (auto simp: parse_transmission_def split: sum.splits option.splits)
  then show ?thesis
    using first_field_nonempty [of x u v t] x by simp
qed

lemma sources_not_sentinel: "''None'' \<notin> sources lo hi rs"
  by (auto simp: sources_def counted_def)

lemma sources_not_empty:
  assumes "transmission_records tofloat th = Inr rs"
  shows "[] \<notin> sources lo hi rs"
  using records_source_nonempty [OF assms] by (fastforce simp: sources_def)

lemma keys_fold_count_source:
  "fst ` set (fold (count_source lo hi) rs []) = sources lo hi rs"
proof -
  have "(p \<in> dom (map_of (fold (count_source lo hi) rs []))) = (p \<in> sources lo hi rs)" for p
    unfolding dom_def map_of_fold_count_source
    by (force simp: sources_def Let_def filter_empty_conv image_iff)
  then show ?thesis
    unfolding dom_map_of_conv_image_fst by blast
qed

lemma keys_fold_times_step:
  "fst ` set (fst (fold (times_step lo hi isSet) rs ([], l0))) = sources lo hi rs"
proof -
  have "(p \<in> dom (map_of (fst (fold (times_step lo hi isSet) rs ([], l0))))) = (p \<in> sources lo hi rs)" for p
    unfolding dom_def map_of_fold_times_step
    by (force simp: sources_def times_of_def filter_empty_conv image_iff)
  then show ?thesis
    unfolding dom_map_of_conv_image_fst by blast
qed

lemma keys_for_each_slopes_body:
  "for_each (slopes_body fit lo latest n) acc ys = Inr d \<Longrightarrow>
   fst ` set d = fst ` set acc \<union> fst ` set ys"
proof (induction ys arbitrary: acc)
  case Nil
  then show ?case by simp
next
  case (Cons y ys)
  from Cons.prems obtain acc' where acc': "slopes_body fit lo latest n acc y = Inr acc'"
    and rest: "for_each (slopes_body fit lo latest n) acc' ys = Inr d"
    by (auto split: sum.splits)
  from acc' obtain v where "acc' = AList.update (fst y) v acc"
    by (auto simp: slopes_body_def split: sum.splits)
  then have "fst ` set acc' = insert (fst y) (fst ` set acc)"
    by (simp add: dom_update)
  with Cons.IH [OF rest] show ?case by auto
qed

lemma bestfitGraph_keys:
  assumes "bestfitGraph tofloat fit th lo hi n = Inr d"
  shows "\<exists>rs. transmission_records tofloat th = Inr rs \<and> fst ` set d = sources lo hi rs"
proof -
  let ?l0 = "if hi = PosInf then Finite (- 1) else hi"
  from assms obtain lines where lines: "opengzip th = Inr lines"
    by (auto simp: bestfitGraph_def split: sum.splits)
  have loop: "for_each (timesInfected_body tofloat lo hi (hi \<noteq> PosInf)) ([], ?l0) lines =
      (case parse_all (parse_transmission tofloat) lines of
         Inl e \<Rightarrow> Inl e
       | Inr rs \<Rightarrow> Inr (fold (times_step lo hi (hi \<noteq> PosInf)) rs ([], ?l0)))"
    by (rule for_each_fusion) (simp add: timesInfected_body_parse)
  from assms lines obtain rs where rs: "parse_all (parse_transmission tofloat) lines = Inr rs"
    by (auto simp: bestfitGraph_def py_eq_PosInf loop Let_def split: sum.splits)
  let ?st = "fold (times_step lo hi (hi \<noteq> PosInf)) rs ([], ?l0)"
  have fit: "for_each (slopes_body fit lo (snd ?st) (if n = 0 then DEF_POINTS_PER_STEP else n)) []
          (fst ?st) = Inr d"
  proof (cases "hi = PosInf")
    case True
    with assms loop show ?thesis
      by (simp add: bestfitGraph_def py_eq_PosInf Let_def lines rs del: fold_simps)
  next
    case False
    with assms loop show ?thesis
      by (simp add: bestfitGraph_def py_eq_PosInf Let_def lines rs del: fold_simps)
  qed
  have "fst ` set d = fst ` set (fst ?st)"
    using keys_for_each_slopes_body [OF fit] by simp
  then show ?thesis
    using lines rs by (simp add: keys_fold_times_step transmission_records_def)
qed

lemma keys_direct_step:
  "fst ` set (direct_step lo hi r d) =
     fst ` set d \<union> (if counted lo hi r then {strip (fst r), strip (fst (snd r))} else {})"
  by (cases r) (auto simp: direct_step_def counted_def keys_extend_at keys_setdefault not_le)

lemma keys_fold_direct_step:
  "fst ` set (fold (direct_step lo hi) rs d) = fst ` set d \<union> sources lo hi rs \<union> destinations lo hi rs"
proof (induction rs arbitrary: d)
  case Nil
  then show ?case by (simp add: sources_def destinations_def)
next
  case (Cons r rs)
  show ?case
    unfolding fold_simps Cons.IH keys_direct_step
    by (auto simp: sources_def destinations_def)
qed

lemma keys_fold_tally_body:
  "fst ` set (fold tally_body td ni) = fst ` set ni \<union> fst ` set td"
  by (induction td arbitrary: ni) (auto simp: tally_body_def keys_add_at keys_setdefault)

lemma targets_known_expand:
  assumes "targets_known direct direct" "targets_known direct lastDegree"
  shows "targets_known direct (map (expand direct) lastDegree)"
proof -
  have "set (out_list direct v) \<subseteq> fst ` set direct" for v
  proof (cases "map_of direct v")
    case None
    then show ?thesis by (simp add: out_list_def)
  next
    case (Some l)
    then have "(v, l) \<in> set direct" by (rule map_of_SomeD)
    with assms(1) show ?thesis
      by (fastforce simp: out_list_def Some targets_known_def)
  qed
  then show ?thesis
    by (fastforce simp: targets_known_def expand_def)
qed

lemma degree_body_keys:
  assumes "distinct (map fst lastDegree)" "targets_known direct lastDegree"
  shows "\<exists>ni'. degree_body direct (ni, lastDegree) n = Inr (ni', map (expand direct) lastDegree) \<and>
           fst ` set ni' = fst ` set ni \<union> fst ` set lastDegree"
proof -
  have fr: "for_each (frontier_body direct) [] lastDegree = Inr (map (expand direct) lastDegree)"
    using for_each_frontier_body [of "[]" lastDegree direct] assms by simp
  have "fst ` set (map (expand direct) lastDegree) = fst ` set lastDegree"
    by (force simp: expand_def)
  then show ?thesis
    by (simp add: degree_body_def fr keys_fold_tally_body)
qed

lemma degree_loop_keys:
  assumes "targets_known direct direct"
  shows "distinct (map fst lastDegree) \<Longrightarrow> targets_known direct lastDegree \<Longrightarrow>
     \<exists>ni' last'. for_each (degree_body direct) (ni, lastDegree) ns = Inr (ni', last') \<and>
        fst ` set ni' = fst ` set ni \<union> (if ns = [] then {} else fst ` set lastDegree)"
proof (induction ns arbitrary: ni lastDegree)
  case Nil
  then show ?case by simp
next
  case (Cons n ns)
  from degree_body_keys [OF Cons.prems, of ni n] obtain ni1
    where step: "degree_body direct (ni, lastDegree) n = Inr (ni1, map (expand direct) lastDegree)"
      and keys1: "fst ` set ni1 = fst ` set ni \<union> fst ` set lastDegree"
    by blast
  have d: "distinct (map fst (map (expand direct) lastDegree))"
    using Cons.prems(1) by (simp add: expand_def comp_def)
  have k: "fst ` set (map (expand direct) lastDegree) = fst ` set lastDegree"
    by (force simp: expand_def)
  from Cons.IH [OF d targets_known_expand [OF assms Cons.prems(2)], of ni1]
  obtain ni' last' where
    "for_each (degree_body direct) (ni1, map (expand direct) lastDegree) ns = Inr (ni', last')"
    "fst ` set ni' = fst ` set ni1 \<union> (if ns = [] then {} else fst ` set (map (expand direct) lastDegree))"
    by blast
  then show ?case
    using step keys1 k by auto
qed

lemma indirectTransmissions_keys:
  assumes "2 \<le> numDegrees" "indirectTransmissions tofloat th numDegrees lo hi = Inr d"
  shows "\<exists>rs. transmission_records tofloat th = Inr rs \<and>
               fst ` set d = sources lo hi rs \<union> destinations lo hi rs"
proof -
  from assms(2) obtain direct where direct: "directAdjacency tofloat th lo hi = Inr direct"
    by (auto simp: indirectTransmissions_def split: sum.splits)
  then obtain rs where rs: "transmission_records tofloat th = Inr rs"
    and fold: "direct = fold (direct_step lo hi) rs []"
    by (auto simp: directAdjacency_records split: sum.splits)
  from directAdjacency_invariant [OF direct]
  have inv: "distinct (map fst direct)" "targets_known direct direct" by simp_all
  have ne: "[1 .. numDegrees - 1] \<noteq> []"
    using assms(1) by (simp add: upto.simps)
  from degree_loop_keys [OF inv(2) inv(1) inv(2), of "[]" "[1 .. numDegrees - 1]"] ne
  obtain ni' last' where
    "for_each (degree_body direct) ([], direct) [1 .. numDegrees - 1] = Inr (ni', last')"
    "fst ` set ni' = fst ` set direct"
    by auto
  then have "fst ` set d = fst ` set direct"
    using assms(2) direct by (simp add: indirectTransmissions_def)
  then show ?thesis
    using rs by (simp add: fold keys_fold_direct_step)
qed

lemma for_each_skip_headers:
  assumes "\<And>s x. body s x =
     (if header x then Inr s else case parse x of Inl e \<Rightarrow> Inl e | Inr r \<Rightarrow> Inr (step r s))"
  shows "for_each body s xs =
     (case parse_all parse (filter (\<lambda>x. \<not> header x) xs) of
        Inl e \<Rightarrow> Inl e
      | Inr rs \<Rightarrow> Inr (fold step rs s))"
  by (induction xs arbitrary: s) (auto simp: assms split: sum.splits)

lemma numContacts_body_parse:
  "numContacts_body d line =
     (if take 4 line = ''NODE'' then Inr d
      else case unpack5 line of Inl e \<Rightarrow> Inl e | Inr c \<Rightarrow> Inr (contact_step c d))"
  by (auto simp: numContacts_body_def contact_step_def Let_def split: sum.splits prod.splits)

lemma numContactInfect_body_parse:
  "numContactInfect_body ni d line =
     (if take 4 line = ''NODE'' then Inr d
      else case unpack5 line of Inl e \<Rightarrow> Inl e | Inr c \<Rightarrow> Inr (contact_infect_step ni c d))"
  by (auto simp: numContactInfect_body_def contact_infect_step_def Let_def
           split: sum.splits prod.splits)

lemma keys_contact_step:
  "fst ` set (contact_step c d) =
     fst ` set d \<union> (if strip (fst c) \<noteq> ''None'' then {strip (fst (snd c)), fst (snd (snd c))} else {})"
  by (cases c) (auto simp: contact_step_def keys_add_at keys_setdefault)

lemma keys_contact_infect_step:
  "fst ` set (contact_infect_step ni c d) =
     fst ` set d \<union> (if strip (fst c) \<noteq> ''None'' then {strip (fst (snd c)), fst (snd (snd c))} else {})"
  by (cases c) (auto simp: contact_infect_step_def keys_add_at keys_setdefault Let_def split: option.splits)

lemma keys_fold_contact_step:
  "fst ` set (fold contact_step cs d) = fst ` set d \<union> participants cs"
proof (induction cs arbitrary: d)
  case Nil
  then show ?case by (simp add: participants_def)
next
  case (Cons c cs)
  show ?case
    unfolding fold_simps Cons.IH keys_contact_step
    by (auto simp: participants_def)
qed

lemma keys_fold_contact_infect_step:
  "fst ` set (fold (contact_infect_step ni) cs d) = fst ` set d \<union> participants cs"
proof (induction cs arbitrary: d)
  case Nil
  then show ?case by (simp add: participants_def)
next
  case (Cons c cs)
  show ?case
    unfolding fold_simps Cons.IH keys_contact_infect_step
    by (auto simp: participants_def)
qed

lemma numContacts_keys:
  assumes "numContacts cn lo hi = Inr d"
  shows "\<exists>cs. contact_records cn = Inr cs \<and> fst ` set d = participants cs"
proof -
  from assms obtain lines where lines: "opengzip cn = Inr lines"
    by (auto simp: numContacts_def split: sum.splits)
  have "for_each numContacts_body [] lines =
     (case parse_all unpack5 (filter (\<lambda>x. \<not> take 4 x = ''NODE'') lines) of
        Inl e \<Rightarrow> Inl e
      | Inr cs \<Rightarrow> Inr (fold contact_step cs []))"
    by (rule for_each_skip_headers) (simp add: numContacts_body_parse)
  with assms lines obtain cs
    where "parse_all unpack5 (filter (\<lambda>x. \<not> take 4 x = ''NODE'') lines) = Inr cs"
      and "d = fold contact_step cs []"
    by (auto simp: numContacts_def split: sum.splits)
  then show ?thesis
    using lines keys_fold_contact_step [of cs "[]"] by (simp add: contact_records_def)
qed

lemma numContactInfect_keys:
  assumes "numContactInfect tofloat th cn lo hi = Inr d"
  shows "\<exists>cs. contact_records cn = Inr cs \<and> fst ` set d = participants cs"
proof -
  from assms obtain ni lines where lines: "opengzip cn = Inr lines"
    and loop: "for_each (numContactInfect_body ni) [] lines = Inr d"
    by (auto simp: numContactInfect_def split: sum.splits)
  have "for_each (numContactInfect_body ni) [] lines =
     (case parse_all unpack5 (filter (\<lambda>x. \<not> take 4 x = ''NODE'') lines) of
        Inl e \<Rightarrow> Inl e
      | Inr cs \<Rightarrow> Inr (fold (contact_infect_step ni) cs []))"
    by (rule for_each_skip_headers) (simp add: numContactInfect_body_parse)
  with loop obtain cs
    where "parse_all unpack5 (filter (\<lambda>x. \<not> take 4 x = ''NODE'') lines) = Inr cs"
      and "d = fold (contact_infect_step ni) cs []"
    by (auto split: sum.splits)
  then show ?thesis
    using lines keys_fold_contact_infect_step [of ni cs "[]"] by (simp add: contact_records_def)
qed

lemma counts_keys: "counts r = Inr d \<Longrightarrow> \<exists>d0. r = Inr d0 \<and> fst ` set d = fst ` set d0"
  by (force simp: counts_def split: sum.splits)

lemma slopes_keys: "slopes r = Inr d \<Longrightarrow> \<exists>d0. r = Inr d0 \<and> fst ` set d = fst ` set d0"
  by (force simp: slopes_def split: sum.splits)

lemma directTransmissions_keys:
  assumes "directTransmissions tofloat th lo hi = Inr d"
  shows "\<exists>rs. transmission_records tofloat th = Inr rs \<and> fst ` set d = sources lo hi rs"
proof -
  from assms obtain rs where "transmission_records tofloat th = Inr rs"
    "d = fold (count_source lo hi) rs []"
    by (auto simp: directTransmissions_records split: sum.splits)
  then show ?thesis
    using keys_fold_count_source [of lo hi rs] by simp
qed

lemma totalTransmissions_keys:
  assumes "totalTransmissions tofloat th lo hi = Inr d"
  shows "\<exists>rs. transmission_records tofloat th = Inr rs \<and> fst ` set d = sources lo hi rs"
proof -
  from assms obtain rs where "transmission_records tofloat th = Inr rs"
    "d = fold (count_source lo hi) rs []"
    by (auto simp: totalTransmissions_records split: sum.splits)
  then show ?thesis
    using keys_fold_count_source [of lo hi rs] by simp
qed

text \<open>
  Claim C5, as amended. When \<open>pairCounts\<close> returns a dictionary: for metrics 1, 2 and 4
  its keys are exactly the trimmed sources, other than \<open>'None'\<close>, of the records that
  the bounds test does not skip (the records with neither \<open>lower > t\<close> nor
  \<open>t > upper\<close>, which include those whose time is \<open>nan\<close>), and no key is empty or
  \<open>'None'\<close>; for metric 3 its keys are those sources together with the trimmed
  destinations of the same records; for metrics 5 and 6 its keys are the participants of
  the contact records, whatever the bounds.
\<close>

theorem pairCounts_keys:
  assumes "pairCounts tofloat fit digits transmissionHist contactNet lowerBound upperBound metric = Inr d"
  shows "(metric = 1 \<or> py_int metric = 2 \<or> metric = 4 \<longrightarrow>
            (\<exists>rs. transmission_records tofloat transmissionHist = Inr rs \<and>
                  fst ` set d = sources lowerBound upperBound rs) \<and>
            [] \<notin> fst ` set d \<and> ''None'' \<notin> fst ` set d) \<and>
         (py_int metric = 3 \<longrightarrow>
            (\<exists>rs. transmission_records tofloat transmissionHist = Inr rs \<and>
                  fst ` set d = sources lowerBound upperBound rs \<union> destinations lowerBound upperBound rs)) \<and>
         (metric = 5 \<or> metric = 6 \<longrightarrow>
            (\<exists>cs. contact_records contactNet = Inr cs \<and> fst ` set d = participants cs))"
proof -
  let ?src = "(\<exists>rs. transmission_records tofloat transmissionHist = Inr rs \<and>
                  fst ` set d = sources lowerBound upperBound rs) \<and>
            [] \<notin> fst ` set d \<and> ''None'' \<notin> fst ` set d"
  let ?both = "\<exists>rs. transmission_records tofloat transmissionHist = Inr rs \<and>
                  fst ` set d = sources lowerBound upperBound rs \<union> destinations lowerBound upperBound rs"
  let ?con = "\<exists>cs. contact_records contactNet = Inr cs \<and> fst ` set d = participants cs"
  have src: ?src
    if "\<exists>rs. transmission_records tofloat transmissionHist = Inr rs \<and>
              fst ` set d0 = sources lowerBound upperBound rs" "fst ` set d = fst ` set d0"
    for d0 :: "(string \<times> 'b) list"
  proof -
    from that obtain rs where rs: "transmission_records tofloat transmissionHist = Inr rs"
      "fst ` set d = sources lowerBound upperBound rs"
      by auto
    have "[] \<notin> sources lowerBound upperBound rs"
      by (rule sources_not_empty [OF rs(1)])
    moreover have "''None'' \<notin> sources lowerBound upperBound rs"
      by (rule sources_not_sentinel)
    ultimately show ?thesis
      using rs by auto
  qed
  have m1: ?src if m: "metric = 1"
  proof -
    from assms m have "counts (directTransmissions tofloat transmissionHist lowerBound upperBound) = Inr d"
      by (simp add: pairCounts_def split: if_splits)
    from counts_keys [OF this] obtain d0
      where d0: "directTransmissions tofloat transmissionHist lowerBound upperBound = Inr d0"
        "fst ` set d = fst ` set d0"
      by blast
    from src [OF directTransmissions_keys [OF d0(1)] d0(2)] show ?thesis .
  qed
  have m2: ?src if m: "metric \<noteq> 1" "py_int metric = 2"
  proof -
    from assms m have "slopes (bestfitGraph tofloat fit transmissionHist lowerBound upperBound
         (digits metric)) = Inr d"
      by (simp add: pairCounts_def split: if_splits)
    from slopes_keys [OF this] obtain d0
      where d0: "bestfitGraph tofloat fit transmissionHist lowerBound upperBound (digits metric) = Inr d0"
        "fst ` set d = fst ` set d0"
      by blast
    from src [OF bestfitGraph_keys [OF d0(1)] d0(2)] show ?thesis .
  qed
  have m3: ?both if m: "py_int metric = 3"
  proof -
    from m have ne: "metric \<noteq> 1" "py_int metric \<noteq> 2"
      by (auto simp: py_int_def)
    let ?n = "if digits metric < 2 then 2 else int (digits metric)"
    from assms m ne have "counts (indirectTransmissions tofloat transmissionHist ?n
         lowerBound upperBound) = Inr d"
      by (simp add: pairCounts_def split: if_splits)
    from counts_keys [OF this] obtain d0
      where d0: "indirectTransmissions tofloat transmissionHist ?n lowerBound upperBound = Inr d0"
        "fst ` set d = fst ` set d0"
      by blast
    have "2 \<le> ?n" by simp
    from indirectTransmissions_keys [OF this d0(1)] d0(2) show ?thesis
      by simp
  qed
  have m4: ?src if m: "metric = 4"
  proof -
    from assms m have "counts (totalTransmissions tofloat transmissionHist lowerBound upperBound) = Inr d"
      by (simp add: pairCounts_def py_int_def split: if_splits)
    from counts_keys [OF this] obtain d0
      where d0: "totalTransmissions tofloat transmissionHist lowerBound upperBound = Inr d0"
        "fst ` set d = fst ` set d0"
      by blast
    from src [OF totalTransmissions_keys [OF d0(1)] d0(2)] show ?thesis .
  qed
  have m5: ?con if m: "metric = 5"
  proof -
    from assms m have "counts (numContacts contactNet lowerBound upperBound) = Inr d"
      by (simp add: pairCounts_def py_int_def split: if_splits)
    from counts_keys [OF this] obtain d0
      where d0: "numContacts contactNet lowerBound upperBound = Inr d0" "fst ` set d = fst ` set d0"
      by blast
    from numContacts_keys [OF d0(1)] d0(2) show ?thesis
      by simp
  qed
  have m6: ?con if m: "metric = 6"
  proof -
    from assms m have "counts (numContactInfect tofloat transmissionHist contactNet lowerBound upperBound)
        = Inr d"
      by (simp add: pairCounts_def py_int_def split: if_splits)
    from counts_keys [OF this] obtain d0
      where d0: "numContactInfect tofloat transmissionHist contactNet lowerBound upperBound = Inr d0"
        "fst ` set d = fst ` set d0"
      by blast
    from numContactInfect_keys [OF d0(1)] d0(2) show ?thesis
      by simp
  qed
  have a: "metric = 1 \<or> py_int metric = 2 \<or> metric = 4 \<longrightarrow> ?src"
    using m1 m2 m4 by blast
  have b: "py_int metric = 3 \<longrightarrow> ?both"
    using m3 by blast
  have c: "metric = 5 \<or> metric = 6 \<longrightarrow> ?con"
    using m5 m6 by blast
  from a b c show ?thesis
    by (intro conjI)
qed


lemma contact_log_records:
  "contact_records contact_log =
     Inr [(''EDGE'', ''A'', ''B'', ''.'', ''u''), (''None'', ''A'', ''C'', ''.'', ''u'')]"
  by (simp add: contact_log_def contact_records_def sample_defs)

lemmas key_eval = sources_def destinations_def participants_def counted_def strip_def lstrip_def
  rstrip_def isspace_def

lemma chain_log_metric_3:
  "pairCounts float_of_literal show_steps zero_digits chain_log NotSupplied (Finite 0) PosInf 3
      = Inr [(''A'', Count 1), (''B'', Count 0), (''C'', Count 0)]"
  by (simp add: pairCounts_def py_int_def zero_digits_def chain_log_def counts_def
       chain_log_adjacency [unfolded chain_log_def] indirectTransmissions_def degree_body_def
       frontier_body_def extend_body_def tally_body_def setdefault_def extend_at_def add_at_def)

theorem pairCounts_keys_witness:
  "(\<exists>d. pairCounts float_of_literal show_steps zero_digits chain_log NotSupplied (Finite 0) PosInf 1
          = Inr d \<and> fst ` set d = {''A'', ''B''}) \<and>
   (\<exists>d. pairCounts float_of_literal show_steps zero_digits chain_log NotSupplied (Finite 0) PosInf 3
          = Inr d \<and> fst ` set d = {''A'', ''B'', ''C''}) \<and>
   (\<exists>d. pairCounts float_of_literal show_steps zero_digits NotSupplied contact_log (Finite 0) PosInf 5
          = Inr d \<and> fst ` set d = {''A'', ''B''})"
proof (intro conjI)
  let ?rs = "[(''A'', ''B'', Finite 1), (''B'', ''C'', Finite 2)]"
  have r1: "pairCounts float_of_literal show_steps zero_digits chain_log NotSupplied (Finite 0) PosInf 1
      = Inr [(''A'', Count 1), (''B'', Count 1)]"
    by (simp add: pairCounts_def chain_log_def counts_def directTransmissions_records
         [unfolded chain_log_def] chain_log_records [unfolded chain_log_def] count_source_def
         setdefault_def add_at_def strip_def lstrip_def rstrip_def isspace_def less_xreal_def)
  from pairCounts_keys [OF r1]
  have "\<exists>rs. transmission_records float_of_literal chain_log = Inr rs \<and>
          fst ` set [(''A'', Count 1 :: step list score), (''B'', Count 1)] = sources (Finite 0) PosInf rs"
    by simp
  then have "fst ` set [(''A'', Count 1 :: step list score), (''B'', Count 1)] = sources (Finite 0) PosInf ?rs"
    by (simp add: chain_log_records)
  then have "fst ` set [(''A'', Count 1 :: step list score), (''B'', Count 1)] = {''A'', ''B''}"
    by (simp add: key_eval)
  with r1 show "\<exists>d. pairCounts float_of_literal show_steps zero_digits chain_log NotSupplied (Finite 0) PosInf 1
          = Inr d \<and> fst ` set d = {''A'', ''B''}"
    by blast
next
  let ?rs = "[(''A'', ''B'', Finite 1), (''B'', ''C'', Finite 2)]"
  note r3 = chain_log_metric_3
  have p3: "py_int 3 = 3" by (simp add: py_int_def)
  from pairCounts_keys [OF r3] p3
  have "\<exists>rs. transmission_records float_of_literal chain_log = Inr rs \<and>
          fst ` set [(''A'', Count 1 :: step list score), (''B'', Count 0), (''C'', Count 0)] =
            sources (Finite 0) PosInf rs \<union> destinations (Finite 0) PosInf rs"
    by simp
  then have "fst ` set [(''A'', Count 1 :: step list score), (''B'', Count 0), (''C'', Count 0)] =
            sources (Finite 0) PosInf ?rs \<union> destinations (Finite 0) PosInf ?rs"
    by (simp add: chain_log_records)
  then have "fst ` set [(''A'', Count 1 :: step list score), (''B'', Count 0), (''C'', Count 0)] =
      {''A'', ''B'', ''C''}"
    by (simp add: key_eval)
  with r3 show "\<exists>d. pairCounts float_of_literal show_steps zero_digits chain_log NotSupplied (Finite 0) PosInf 3
          = Inr d \<and> fst ` set d = {''A'', ''B'', ''C''}"
    by blast
next
  have r5: "pairCounts float_of_literal show_steps zero_digits NotSupplied contact_log (Finite 0) PosInf 5
      = Inr [(''A'', Count 1), (''B'', Count 1)]"
    by (simp add: pairCounts_def py_int_def contact_log_def counts_def numContacts_def sample_defs
         numContacts_body_def setdefault_def add_at_def)
  from pairCounts_keys [OF r5]
  have "\<exists>cs. contact_records contact_log = Inr cs \<and>
          fst ` set [(''A'', Count 1 :: step list score), (''B'', Count 1)] = participants cs"
    by simp
  then have "fst ` set [(''A'', Count 1 :: step list score), (''B'', Count 1)] = {''A'', ''B''}"
    by (simp add: contact_log_records key_eval)
  with r5 show "\<exists>d. pairCounts float_of_literal show_steps zero_digits NotSupplied contact_log (Finite 0) PosInf 5
          = Inr d \<and> fst ` set d = {''A'', ''B''}"
    by blast
qed

text \<open>
  A contact participant is not compared with the sentinel, and its field may be empty:
  both can be keys of the dictionary of metric 5.
\<close>

lemma numContacts_sentinel_and_empty_keys:
  "numContacts (Content (log_text [[''EDGE'', ''None'', ''B'', ''.'', ''u''], [''EDGE'', [], ''C'', ''.'', ''u'']]))
     (Finite 0) PosInf = Inr [(''None'', 1), (''B'', 1), ([], 1), (''C'', 1)]"
  by code_simp

text \<open>
  A record whose time is \<open>nan\<close> passes the bounds test, so its source is among the
  \<open>sources\<close> and is a key: with metric 1 and the bounds 0 and 5, the log with the one
  record \<open>A \<rightarrow> B\<close> at time \<open>nan\<close> gives the key \<open>A\<close>.
\<close>

lemma pairCounts_nan_time_key:
  "pairCounts float_of_literal show_steps zero_digits nan_log NotSupplied (Finite 0) (Finite 5) 1 =
     Inr [(''A'', Count 1)] \<and>
   sources (Finite 0) (Finite 5) [(''A'', ''B'', NaN)] = {''A''}"
proof -
  have "nan_log \<noteq> NotSupplied"
    by (simp add: nan_log_def)
  then show ?thesis
    by (simp add: pairCounts_def counts_def directTransmissions_records nan_log_records
         count_source_def setdefault_def add_at_def key_eval)
qed

text \<open>
  With metric 3 on the log with the records \<open>A \<rightarrow> B\<close> and \<open>B \<rightarrow> C\<close>, the individual
  \<open>C\<close> is a key of the result and is the source of no record.
\<close>

theorem pairCounts_keys_counterexample:
  "transmission_records float_of_literal chain_log =
     Inr [(''A'', ''B'', Finite 1), (''B'', ''C'', Finite 2)] \<and>
   pairCounts float_of_literal show_steps zero_digits chain_log NotSupplied (Finite 0) PosInf 3 =
     Inr [(''A'', Count 1), (''B'', Count 0), (''C'', Count 0)] \<and>
   ''C'' \<notin> sources (Finite 0) PosInf [(''A'', ''B'', Finite 1), (''B'', ''C'', Finite 2)]"
  by (simp add: chain_log_records chain_log_metric_3 key_eval)

end
